theory Spec2Isabelle
  imports Main "HOL-Library.Word"
begin

section \<open>Sequences, iterators and references\<close>

text \<open>
  The header \<open>pairwise_iterator.h\<close> (namespace \<open>PairwiseIterator\<close>) defines two views,
  \<open>internal_pairs\<close> and \<open>cartesian_product\<close>, over containers owned by the caller.

  A container is modelled by the list of its elements. An iterator into a container of
  \<open>n\<close> elements is a position \<open>0 .. n\<close>: \<open>begin()\<close> is \<open>0\<close>, \<open>end()\<close> is \<open>n\<close>. C++ leaves
  three things undefined that the views can run into, and the model returns them as
  errors: incrementing the past-the-end iterator, decrementing \<open>begin()\<close>, and
  dereferencing an iterator that does not point at an element. The product of two
  \<open>std::ptrdiff_t\<close> values and the sum of two \<open>int\<close> values are undefined when they do not
  fit the signed type, and so is reading through a reference to a temporary object that
  has been destroyed.

  \<open>size_t\<close> is the unsigned 64-bit word, \<open>std::ptrdiff_t\<close> its signed reading and \<open>int\<close>
  the signed reading of the 32-bit word (an LP64 target).
\<close>

datatype error = InvalidIterator | SignedOverflow | DanglingReference

type_synonym iter = nat

type_synonym size_t = "64 word"

type_synonym cint = "32 word"

text \<open>A reference to an element of a container: the element's index.\<close>

datatype ref = Ref nat

text \<open>\<open>++it\<close>, \<open>it++\<close> and \<open>std::next(it)\<close> on an iterator of a container of \<open>n\<close> elements.\<close>

definition next_it :: "nat \<Rightarrow> iter \<Rightarrow> error + iter" where
  "next_it n p = (if p < n then Inr (p + 1) else Inl InvalidIterator)"

text \<open>\<open>std::prev(it)\<close>.\<close>

definition prev_it :: "iter \<Rightarrow> error + iter" where
  "prev_it p = (if 0 < p then Inr (p - 1) else Inl InvalidIterator)"

text \<open>\<open>*it\<close> on an iterator of a container of \<open>n\<close> elements: a reference to the element.\<close>

definition deref :: "nat \<Rightarrow> iter \<Rightarrow> error + ref" where
  "deref n p = (if p < n then Inr (Ref p) else Inl InvalidIterator)"

text \<open>Reading and assigning through a reference into the container \<open>xs\<close>.\<close>

fun rd :: "'a list \<Rightarrow> ref \<Rightarrow> 'a" where
  "rd xs (Ref k) = xs ! k"

fun wr :: "'a list \<Rightarrow> ref \<Rightarrow> 'a \<Rightarrow> 'a list" where
  "wr xs (Ref k) v = xs[k := v]"

text \<open>
  What \<open>operator*\<close> of a container's iterator yields: an lvalue of the iterator's
  \<open>value_type\<close> (the iterators of \<open>std::vector<int>\<close>, \<open>std::list\<close>, \<open>std::array\<close> and
  \<open>std::string\<close>), or a proxy object that only converts to \<open>value_type\<close>
  (\<open>std::vector<bool>::iterator\<close>).
\<close>

datatype deref_kind = Lvalue | Proxy

text \<open>
  A \<open>const value_type &\<close> initialised from \<open>*it\<close>. From an lvalue it refers to the element.
  From a proxy it refers to a temporary \<open>value_type\<close> made by the conversion, and that
  temporary is destroyed when the initialisation is complete.
\<close>

datatype cref = Element nat | Temporary nat

fun cref_of :: "deref_kind \<Rightarrow> nat \<Rightarrow> cref" where
  "cref_of Lvalue p = Element p"
| "cref_of Proxy p = Temporary p"

definition bind_cref :: "deref_kind \<Rightarrow> nat \<Rightarrow> iter \<Rightarrow> error + cref" where
  "bind_cref k n p = (if p < n then Inr (cref_of k p) else Inl InvalidIterator)"

text \<open>Reading through such a reference into the container \<open>xs\<close>.\<close>

fun rd_cref :: "'a list \<Rightarrow> cref \<Rightarrow> error + 'a" where
  "rd_cref xs (Element k) = Inr (xs ! k)"
| "rd_cref xs (Temporary k) = Inl DanglingReference"

text \<open>\<open>a + b\<close> on two \<open>int\<close>.\<close>

definition add_int :: "cint \<Rightarrow> cint \<Rightarrow> error + cint" where
  "add_int a b =
     (if - (2 ^ 31) \<le> sint a + sint b \<and> sint a + sint b < 2 ^ 31 then Inr (a + b)
      else Inl SignedOverflow)"

text \<open>\<open>vec.size()\<close>, a \<open>size_t\<close>.\<close>

definition vec_size :: "'a list \<Rightarrow> size_t" where
  "vec_size xs = of_nat (length xs)"

section \<open>\<open>internal_pairs\<close>\<close>

text \<open>
  \<open>internal_pairs::iterator\<close> has the members \<open>_end\<close>, \<open>i\<close> and \<open>j\<close>. The view itself holds
  only the reference \<open>vec\<close>; it is modelled by the container, and where only positions
  matter by the container's length \<open>n\<close>.
\<close>

record ip_iterator =
  it_end :: iter
  it_i :: iter
  it_j :: iter

text \<open>\<open>operator*\<close>: \<open>return {*i, *j}\<close>.\<close>

definition ip_star :: "nat \<Rightarrow> ip_iterator \<Rightarrow> error + (ref \<times> ref)" where
  "ip_star n it =
     (case deref n (it_i it) of
        Inl e \<Rightarrow> Inl e
      | Inr a \<Rightarrow> (case deref n (it_j it) of Inl e \<Rightarrow> Inl e | Inr b \<Rightarrow> Inr (a, b)))"

text \<open>\<open>operator!=\<close>: \<open>(i != other.i) or (j != other.j)\<close>.\<close>

definition ip_ne :: "ip_iterator \<Rightarrow> ip_iterator \<Rightarrow> bool" where
  "ip_ne it other = (it_i it \<noteq> it_i other \<or> it_j it \<noteq> it_j other)"

text \<open>\<open>operator++\<close>: \<open>if (++j == _end) j = std::next(++i);\<close>\<close>

definition ip_inc :: "nat \<Rightarrow> ip_iterator \<Rightarrow> error + ip_iterator" where
  "ip_inc n it =
     (case next_it n (it_j it) of
        Inl e \<Rightarrow> Inl e
      | Inr j' \<Rightarrow>
          if j' = it_end it then
            (case next_it n (it_i it) of
               Inl e \<Rightarrow> Inl e
             | Inr i' \<Rightarrow>
                 (case next_it n i' of
                    Inl e \<Rightarrow> Inl e
                  | Inr j'' \<Rightarrow> Inr (it\<lparr>it_i := i', it_j := j''\<rparr>)))
          else Inr (it\<lparr>it_j := j'\<rparr>))"

text \<open>\<open>begin()\<close>: \<open>iterator(vec.end(), vec.begin(), std::next(vec.begin()))\<close>.\<close>

definition ip_begin :: "nat \<Rightarrow> error + ip_iterator" where
  "ip_begin n =
     (case next_it n 0 of
        Inl e \<Rightarrow> Inl e
      | Inr b \<Rightarrow> Inr \<lparr>it_end = n, it_i = 0, it_j = b\<rparr>)"

text \<open>\<open>end()\<close>: \<open>iterator(vec.end(), std::prev(vec.end()), vec.end())\<close>.\<close>

definition ip_end :: "nat \<Rightarrow> error + ip_iterator" where
  "ip_end n =
     (case prev_it n of
        Inl e \<Rightarrow> Inl e
      | Inr a \<Rightarrow> Inr \<lparr>it_end = n, it_i = a, it_j = n\<rparr>)"

text \<open>\<open>size()\<close>: \<open>vec.size() * (vec.size() - 1) / 2\<close>, in \<open>size_t\<close>.\<close>

definition ip_size :: "'a list \<Rightarrow> size_t" where
  "ip_size xs = vec_size xs * (vec_size xs - 1) div 2"

text \<open>
  \<open>std::distance(first, last)\<close> on forward iterators:
  \<open>while (first != last) { ++first; ++n; }\<close>.
\<close>

function ip_distance :: "nat \<Rightarrow> ip_iterator \<Rightarrow> ip_iterator \<Rightarrow> error + nat" where
  "ip_distance n it stop =
     (if ip_ne it stop then
        (case ip_inc n it of
           Inl e \<Rightarrow> Inl e
         | Inr it' \<Rightarrow>
             (case ip_distance n it' stop of Inl e \<Rightarrow> Inl e | Inr d \<Rightarrow> Inr (Suc d)))
      else Inr 0)"
  by pat_completeness auto
termination
  by (relation "measures [\<lambda>(n, it, stop). n - it_i it, \<lambda>(n, it, stop). n - it_j it]")
     (auto simp: ip_inc_def next_it_def split: if_splits)

declare ip_distance.simps [simp del]

text \<open>
  \<open>std::accumulate(it, stop, init, op)\<close>:
  \<open>for (; it != stop; ++it) init = op(init, *it);\<close>. A range-based \<open>for\<close> over
  the view is the same loop, with the loop body as \<open>op\<close>.
\<close>

function ip_accumulate ::
  "nat \<Rightarrow> ('s \<Rightarrow> ref \<times> ref \<Rightarrow> 's) \<Rightarrow> ip_iterator \<Rightarrow> ip_iterator \<Rightarrow> 's \<Rightarrow> error + 's" where
  "ip_accumulate n op it stop init =
     (if ip_ne it stop then
        (case ip_star n it of
           Inl e \<Rightarrow> Inl e
         | Inr p \<Rightarrow>
             (case ip_inc n it of
                Inl e \<Rightarrow> Inl e
              | Inr it' \<Rightarrow> ip_accumulate n op it' stop (op init p)))
      else Inr init)"
  by pat_completeness auto
termination
  by (relation "measures [\<lambda>(n, op, it, stop, init). n - it_i it,
                          \<lambda>(n, op, it, stop, init). n - it_j it]")
     (auto simp: ip_inc_def next_it_def split: if_splits)

declare ip_accumulate.simps [simp del]

text \<open>
  A range-based \<open>for\<close> over the view that appends the two elements of every pair-view to
  a result: \<open>for (auto [a, b] : internal_pairs(xs)) out.push_back({a, b});\<close>
\<close>

definition ip_pairs :: "'a list \<Rightarrow> error + ('a \<times> 'a) list" where
  "ip_pairs xs =
     (case ip_begin (length xs) of
        Inl e \<Rightarrow> Inl e
      | Inr b \<Rightarrow>
          (case ip_end (length xs) of
             Inl e \<Rightarrow> Inl e
           | Inr s \<Rightarrow>
               ip_accumulate (length xs) (\<lambda>out p. out @ [(rd xs (fst p), rd xs (snd p))]) b s []))"

section \<open>\<open>cartesian_product\<close>\<close>

text \<open>
  \<open>cartesian_product::iterator\<close> has the members \<open>pos1\<close>, \<open>last1\<close>, \<open>pos2\<close>, \<open>first2\<close> and
  \<open>last2\<close>; its constructor takes \<open>first1\<close>, \<open>last1\<close>, \<open>first2\<close>, \<open>last2\<close>.
\<close>

record cp_iterator =
  pos1 :: iter
  last1 :: iter
  pos2 :: iter
  first2 :: iter
  last2 :: iter

definition mk_iterator :: "iter \<Rightarrow> iter \<Rightarrow> iter \<Rightarrow> iter \<Rightarrow> cp_iterator" where
  "mk_iterator f1 l1 f2 l2 = \<lparr>pos1 = f1, last1 = l1, pos2 = f2, first2 = f2, last2 = l2\<rparr>"

text \<open>
  \<open>operator*\<close>: \<open>return {*pos1, *pos2}\<close>, where the returned \<open>value_type\<close> is
  \<open>std::tuple<const typename Iter1::value_type &, const typename Iter2::value_type &>\<close>:
  each component is a \<open>const value_type &\<close> initialised from \<open>*pos\<close>. The containers have
  \<open>n1\<close> and \<open>n2\<close> elements and iterators of the kinds \<open>k1\<close> and \<open>k2\<close>.
\<close>

definition cp_star ::
  "deref_kind \<Rightarrow> deref_kind \<Rightarrow> nat \<Rightarrow> nat \<Rightarrow> cp_iterator \<Rightarrow> error + (cref \<times> cref)" where
  "cp_star k1 k2 n1 n2 it =
     (case bind_cref k1 n1 (pos1 it) of
        Inl e \<Rightarrow> Inl e
      | Inr a \<Rightarrow> (case bind_cref k2 n2 (pos2 it) of Inl e \<Rightarrow> Inl e | Inr b \<Rightarrow> Inr (a, b)))"

text \<open>\<open>operator!=\<close>: \<open>(pos1 != other.pos1) or (pos2 != other.pos2)\<close>.\<close>

definition cp_ne :: "cp_iterator \<Rightarrow> cp_iterator \<Rightarrow> bool" where
  "cp_ne it other = (pos1 it \<noteq> pos1 other \<or> pos2 it \<noteq> pos2 other)"

text \<open>
  \<open>operator++\<close>:
  \<open>if (++pos2 == last2) { pos2 = first2; pos1++; if (pos1 == last1) pos2 = last2; }\<close>
\<close>

definition cp_inc :: "nat \<Rightarrow> nat \<Rightarrow> cp_iterator \<Rightarrow> error + cp_iterator" where
  "cp_inc n1 n2 it =
     (case next_it n2 (pos2 it) of
        Inl e \<Rightarrow> Inl e
      | Inr p2 \<Rightarrow>
          if p2 = last2 it then
            (case next_it n1 (pos1 it) of
               Inl e \<Rightarrow> Inl e
             | Inr p1 \<Rightarrow>
                 Inr (if p1 = last1 it then it\<lparr>pos1 := p1, pos2 := last2 it\<rparr>
                      else it\<lparr>pos1 := p1, pos2 := first2 it\<rparr>))
          else Inr (it\<lparr>pos2 := p2\<rparr>))"

text \<open>The view has the members \<open>_begin\<close> and \<open>_end\<close>.\<close>

record cp_view =
  m_begin :: cp_iterator
  m_end :: cp_iterator

text \<open>\<open>std::distance\<close> on the random-access iterators of a container, a \<open>std::ptrdiff_t\<close>.\<close>

definition distance_it :: "iter \<Rightarrow> iter \<Rightarrow> int" where
  "distance_it a b = int b - int a"

text \<open>
  \<open>size()\<close>: \<open>std::distance(_begin.pos1, _begin.last1) * std::distance(_begin.first2,
  _begin.last2)\<close>, a product of two \<open>std::ptrdiff_t\<close> converted to \<open>size_t\<close>.
\<close>

definition cp_size :: "cp_view \<Rightarrow> error + size_t" where
  "cp_size v =
     (let d = distance_it (pos1 (m_begin v)) (last1 (m_begin v)) *
              distance_it (first2 (m_begin v)) (last2 (m_begin v))
      in if - (2 ^ 63) \<le> d \<and> d < 2 ^ 63 then Inr (word_of_int d) else Inl SignedOverflow)"

text \<open>
  The constructor: \<open>_begin(first1, last1, first2, last2), _end(last1, last1, last2, last2)\<close>,
  then \<open>if (size() == 0) _begin = _end;\<close>
\<close>

definition cartesian_product :: "iter \<Rightarrow> iter \<Rightarrow> iter \<Rightarrow> iter \<Rightarrow> error + cp_view" where
  "cartesian_product f1 l1 f2 l2 =
     (let v = \<lparr>m_begin = mk_iterator f1 l1 f2 l2, m_end = mk_iterator l1 l1 l2 l2\<rparr>
      in case cp_size v of
           Inl e \<Rightarrow> Inl e
         | Inr s \<Rightarrow> Inr (if s = 0 then v\<lparr>m_begin := m_end v\<rparr> else v))"

definition cp_begin :: "cp_view \<Rightarrow> cp_iterator" where
  "cp_begin v = m_begin v"

definition cp_end :: "cp_view \<Rightarrow> cp_iterator" where
  "cp_end v = m_end v"

text \<open>\<open>std::distance\<close> on two iterators of the view.\<close>

function cp_distance :: "nat \<Rightarrow> nat \<Rightarrow> cp_iterator \<Rightarrow> cp_iterator \<Rightarrow> error + nat" where
  "cp_distance n1 n2 it stop =
     (if cp_ne it stop then
        (case cp_inc n1 n2 it of
           Inl e \<Rightarrow> Inl e
         | Inr it' \<Rightarrow>
             (case cp_distance n1 n2 it' stop of Inl e \<Rightarrow> Inl e | Inr d \<Rightarrow> Inr (Suc d)))
      else Inr 0)"
  by pat_completeness auto
termination
  by (relation "measures [\<lambda>(n1, n2, it, stop). n1 - pos1 it, \<lambda>(n1, n2, it, stop). n2 - pos2 it]")
     (auto simp: cp_inc_def next_it_def split: if_splits)

declare cp_distance.simps [simp del]

text \<open>\<open>std::accumulate\<close> on two iterators of the view, and the range-based \<open>for\<close>.\<close>

function cp_accumulate ::
  "deref_kind \<Rightarrow> deref_kind \<Rightarrow> nat \<Rightarrow> nat \<Rightarrow> ('s \<Rightarrow> cref \<times> cref \<Rightarrow> 's) \<Rightarrow>
   cp_iterator \<Rightarrow> cp_iterator \<Rightarrow> 's \<Rightarrow> error + 's" where
  "cp_accumulate k1 k2 n1 n2 op it stop init =
     (if cp_ne it stop then
        (case cp_star k1 k2 n1 n2 it of
           Inl e \<Rightarrow> Inl e
         | Inr p \<Rightarrow>
             (case cp_inc n1 n2 it of
                Inl e \<Rightarrow> Inl e
              | Inr it' \<Rightarrow> cp_accumulate k1 k2 n1 n2 op it' stop (op init p)))
      else Inr init)"
  by pat_completeness auto
termination
  by (relation "measures [\<lambda>(k1, k2, n1, n2, op, it, stop, init). n1 - pos1 it,
                          \<lambda>(k1, k2, n1, n2, op, it, stop, init). n2 - pos2 it]")
     (auto simp: cp_inc_def next_it_def split: if_splits)

declare cp_accumulate.simps [simp del]

text \<open>\<open>std::advance(it, k)\<close> on a forward iterator: \<open>while (k--) ++it;\<close>\<close>

fun cp_advance :: "nat \<Rightarrow> nat \<Rightarrow> cp_iterator \<Rightarrow> nat \<Rightarrow> error + cp_iterator" where
  "cp_advance n1 n2 it 0 = Inr it"
| "cp_advance n1 n2 it (Suc k) =
     (case cp_inc n1 n2 it of Inl e \<Rightarrow> Inl e | Inr it' \<Rightarrow> cp_advance n1 n2 it' k)"

text \<open>
  The view over two whole containers, as the test constructs it:
  \<open>cartesian_product(xs.begin(), xs.end(), ys.begin(), ys.end())\<close>.
\<close>

definition cp_over :: "nat \<Rightarrow> nat \<Rightarrow> error + cp_view" where
  "cp_over n1 n2 = cartesian_product 0 n1 0 n2"

text \<open>
  \<open>for (auto [a, b] : cartesian_product(xs.begin(), xs.end(), ys.begin(), ys.end()))
  out.push_back({a, b});\<close> The body reads both elements through the pair-view's
  references; once a read is undefined the loop has no defined result.
\<close>

definition push_pair ::
  "'a list \<Rightarrow> 'b list \<Rightarrow> error + ('a \<times> 'b) list \<Rightarrow> cref \<times> cref \<Rightarrow> error + ('a \<times> 'b) list" where
  "push_pair xs ys out p =
     (case out of
        Inl e \<Rightarrow> Inl e
      | Inr ps \<Rightarrow>
          (case rd_cref xs (fst p) of
             Inl e \<Rightarrow> Inl e
           | Inr a \<Rightarrow>
               (case rd_cref ys (snd p) of Inl e \<Rightarrow> Inl e | Inr b \<Rightarrow> Inr (ps @ [(a, b)]))))"

definition cp_pairs ::
  "deref_kind \<Rightarrow> deref_kind \<Rightarrow> 'a list \<Rightarrow> 'b list \<Rightarrow> error + ('a \<times> 'b) list" where
  "cp_pairs k1 k2 xs ys =
     (case cp_over (length xs) (length ys) of
        Inl e \<Rightarrow> Inl e
      | Inr v \<Rightarrow>
          (case cp_accumulate k1 k2 (length xs) (length ys) (push_pair xs ys)
                  (cp_begin v) (cp_end v) (Inr []) of
             Inl e \<Rightarrow> Inl e
           | Inr out \<Rightarrow> out))"

text \<open>
  The fold of the test over two \<open>std::vector<int>\<close>: \<open>std::accumulate(pairs.begin(),
  pairs.end(), 0, [](int sum, auto pair) { return sum + std::get<1>(pair); })\<close>. The
  accumulator is an \<open>int\<close>.
\<close>

definition sum_second :: "cint list \<Rightarrow> error + cint \<Rightarrow> cref \<times> cref \<Rightarrow> error + cint" where
  "sum_second ys acc p =
     (case acc of
        Inl e \<Rightarrow> Inl e
      | Inr s \<Rightarrow> (case rd_cref ys (snd p) of Inl e \<Rightarrow> Inl e | Inr b \<Rightarrow> add_int s b))"

definition cp_sum_second :: "cint list \<Rightarrow> cint list \<Rightarrow> error + cint" where
  "cp_sum_second xs ys =
     (case cp_over (length xs) (length ys) of
        Inl e \<Rightarrow> Inl e
      | Inr v \<Rightarrow>
          (case cp_accumulate Lvalue Lvalue (length xs) (length ys) (sum_second ys)
                  (cp_begin v) (cp_end v) (Inr 0) of
             Inl e \<Rightarrow> Inl e
           | Inr acc \<Rightarrow> acc))"



section \<open>The orders the specification names\<close>

text \<open>
  Row-major triangular order on the indices of a sequence of length \<open>n\<close>:
  \<open>(0,1), (0,2), ..., (0,n-1), (1,2), ..., (n-2,n-1)\<close>.
\<close>

definition triangular_order :: "nat \<Rightarrow> (nat \<times> nat) list" where
  "triangular_order n = concat (map (\<lambda>i. map (Pair i) [Suc i..<n]) [0..<n])"

text \<open>
  Row-major order with the second index varying fastest:
  \<open>(0,0), (0,1), ..., (0,n2-1), (1,0), ..., (n1-1,n2-1)\<close>.
\<close>

definition row_major_order :: "nat \<Rightarrow> nat \<Rightarrow> (nat \<times> nat) list" where
  "row_major_order n1 n2 = concat (map (\<lambda>i. map (Pair i) [0..<n2]) [0..<n1])"

text \<open>The lexicographic order on index pairs: first index first.\<close>

definition lex_less :: "nat \<times> nat \<Rightarrow> nat \<times> nat \<Rightarrow> bool" where
  "lex_less p q = (fst p < fst q \<or> (fst p = fst q \<and> snd p < snd q))"

text \<open>What is left of either order from the pair \<open>(i, j)\<close> on.\<close>

definition ip_rest :: "nat \<Rightarrow> nat \<Rightarrow> nat \<Rightarrow> (nat \<times> nat) list" where
  "ip_rest n i j =
     map (Pair i) [j..<n] @ concat (map (\<lambda>a. map (Pair a) [Suc a..<n]) [Suc i..<n])"

definition cp_rest :: "nat \<Rightarrow> nat \<Rightarrow> nat \<Rightarrow> nat \<Rightarrow> (nat \<times> nat) list" where
  "cp_rest n1 n2 i j =
     map (Pair i) [j..<n2] @ concat (map (\<lambda>a. map (Pair a) [0..<n2]) [Suc i..<n1])"

text \<open>The pair-view of an index pair.\<close>

fun pair_view :: "nat \<times> nat \<Rightarrow> ref \<times> ref" where
  "pair_view (a, b) = (Ref a, Ref b)"

text \<open>The pair-view \<open>cartesian_product\<close> makes of an index pair.\<close>

fun cp_pair_view :: "deref_kind \<Rightarrow> deref_kind \<Rightarrow> nat \<times> nat \<Rightarrow> cref \<times> cref" where
  "cp_pair_view k1 k2 (a, b) = (cref_of k1 a, cref_of k2 b)"

section \<open>Properties of the loops\<close>

subsection \<open>Steps of the internal-pairs iterator\<close>

lemma ip_inc_step:
  "i < j \<Longrightarrow> j < n \<Longrightarrow>
   ip_inc n \<lparr>it_end = n, it_i = i, it_j = j\<rparr> =
     Inr (if Suc j = n then \<lparr>it_end = n, it_i = Suc i, it_j = Suc (Suc i)\<rparr>
          else \<lparr>it_end = n, it_i = i, it_j = Suc j\<rparr>)"
  by (auto simp: ip_inc_def next_it_def)

lemma ip_star_valid:
  "i < j \<Longrightarrow> j < n \<Longrightarrow> ip_star n \<lparr>it_end = n, it_i = i, it_j = j\<rparr> = Inr (Ref i, Ref j)"
  by (simp add: ip_star_def deref_def)

lemma ip_accumulate_step:
  "ip_ne it stop \<Longrightarrow> ip_star n it = Inr p \<Longrightarrow> ip_inc n it = Inr it' \<Longrightarrow>
   ip_accumulate n op it stop init = ip_accumulate n op it' stop (op init p)"
  by (subst ip_accumulate.simps) simp

lemma ip_accumulate_stop: "\<not> ip_ne it stop \<Longrightarrow> ip_accumulate n op it stop init = Inr init"
  by (subst ip_accumulate.simps) simp

lemma ip_distance_step:
  "ip_ne it stop \<Longrightarrow> ip_inc n it = Inr it' \<Longrightarrow>
   ip_distance n it stop =
     (case ip_distance n it' stop of Inl e \<Rightarrow> Inl e | Inr d \<Rightarrow> Inr (Suc d))"
  by (subst ip_distance.simps) simp

lemma ip_distance_stop: "\<not> ip_ne it stop \<Longrightarrow> ip_distance n it stop = Inr 0"
  by (subst ip_distance.simps) simp

lemma ip_rest_inner: "Suc j < n \<Longrightarrow> ip_rest n i j = (i, j) # ip_rest n i (Suc j)"
  by (simp add: ip_rest_def upt_conv_Cons)

lemma ip_rest_last: "Suc (Suc i) = n \<Longrightarrow> ip_rest n i (Suc i) = [(i, Suc i)]"
  by (auto simp: ip_rest_def upt_conv_Cons)

lemma ip_rest_row:
  "Suc (Suc i) < n \<Longrightarrow> Suc j = n \<Longrightarrow> ip_rest n i j = (i, j) # ip_rest n (Suc i) (Suc (Suc i))"
  by (auto simp: ip_rest_def upt_conv_Cons)

lemma triangular_order_rest: "2 \<le> n \<Longrightarrow> triangular_order n = ip_rest n 0 1"
  by (simp add: triangular_order_def ip_rest_def upt_conv_Cons)

text \<open>
  From a pair \<open>(i, j)\<close> with \<open>i < j < n\<close> the loop visits what is left of the triangular
  order and stops at \<open>end()\<close>.
\<close>

lemma ip_accumulate_rest:
  "it_end it = n \<Longrightarrow> it_i it < it_j it \<Longrightarrow> it_j it < n \<Longrightarrow>
   it_i stop = n - 1 \<Longrightarrow> it_j stop = n \<Longrightarrow>
   ip_accumulate n op it stop init =
     Inr (foldl op init (map pair_view (ip_rest n (it_i it) (it_j it))))"
proof (induction n op it stop init rule: ip_accumulate.induct)
  case (1 n op it stop init)
  obtain i j where it: "it = \<lparr>it_end = n, it_i = i, it_j = j\<rparr>" and ij: "i < j" "j < n"
    using "1.prems" by (cases it) auto
  have ne: "ip_ne it stop" using ij "1.prems" by (simp add: ip_ne_def it)
  have star: "ip_star n it = Inr (Ref i, Ref j)" using ij by (simp add: it ip_star_valid)
  show ?case
  proof (cases "Suc j = n")
    case False
    then have inc: "ip_inc n it = Inr \<lparr>it_end = n, it_i = i, it_j = Suc j\<rparr>"
      using ij by (simp add: it ip_inc_step)
    have "ip_accumulate n op \<lparr>it_end = n, it_i = i, it_j = Suc j\<rparr> stop (op init (Ref i, Ref j))
        = Inr (foldl op (op init (Ref i, Ref j)) (map pair_view (ip_rest n i (Suc j))))"
      using "1.IH"[OF ne star inc] ij False "1.prems" by simp
    moreover have "ip_rest n i j = (i, j) # ip_rest n i (Suc j)"
      using ij False by (simp add: ip_rest_inner)
    ultimately show ?thesis
      unfolding ip_accumulate_step[OF ne star inc] by (simp add: it)
  next
    case True
    then have inc: "ip_inc n it = Inr \<lparr>it_end = n, it_i = Suc i, it_j = Suc (Suc i)\<rparr>"
      using ij by (simp add: it ip_inc_step)
    show ?thesis
    proof (cases "Suc (Suc i) = n")
      case last: True
      have "ip_accumulate n op \<lparr>it_end = n, it_i = Suc i, it_j = Suc (Suc i)\<rparr> stop (op init (Ref i, Ref j))
          = Inr (op init (Ref i, Ref j))"
        using "1.prems" last by (auto simp: ip_accumulate_stop ip_ne_def)
      moreover have "ip_rest n i j = [(i, j)]"
        using last True ip_rest_last[of i n] by auto
      ultimately show ?thesis
        unfolding ip_accumulate_step[OF ne star inc] by (simp add: it)
    next
      case False
      then have lt: "Suc (Suc i) < n" using ij True by simp
      have "ip_accumulate n op \<lparr>it_end = n, it_i = Suc i, it_j = Suc (Suc i)\<rparr> stop (op init (Ref i, Ref j))
          = Inr (foldl op (op init (Ref i, Ref j)) (map pair_view (ip_rest n (Suc i) (Suc (Suc i)))))"
        using "1.IH"[OF ne star inc] lt "1.prems" by simp
      moreover have "ip_rest n i j = (i, j) # ip_rest n (Suc i) (Suc (Suc i))"
        using lt True by (simp add: ip_rest_row)
      ultimately show ?thesis
        unfolding ip_accumulate_step[OF ne star inc] by (simp add: it)
    qed
  qed
qed

lemma ip_distance_rest:
  "it_end it = n \<Longrightarrow> it_i it < it_j it \<Longrightarrow> it_j it < n \<Longrightarrow>
   it_i stop = n - 1 \<Longrightarrow> it_j stop = n \<Longrightarrow>
   ip_distance n it stop = Inr (length (ip_rest n (it_i it) (it_j it)))"
proof (induction n it stop rule: ip_distance.induct)
  case (1 n it stop)
  obtain i j where it: "it = \<lparr>it_end = n, it_i = i, it_j = j\<rparr>" and ij: "i < j" "j < n"
    using "1.prems" by (cases it) auto
  have ne: "ip_ne it stop" using ij "1.prems" by (simp add: ip_ne_def it)
  show ?case
  proof (cases "Suc j = n")
    case False
    then have inc: "ip_inc n it = Inr \<lparr>it_end = n, it_i = i, it_j = Suc j\<rparr>"
      using ij by (simp add: it ip_inc_step)
    have "ip_distance n \<lparr>it_end = n, it_i = i, it_j = Suc j\<rparr> stop
        = Inr (length (ip_rest n i (Suc j)))"
      using "1.IH"[OF ne inc] ij False "1.prems" by simp
    moreover have "ip_rest n i j = (i, j) # ip_rest n i (Suc j)"
      using ij False by (simp add: ip_rest_inner)
    ultimately show ?thesis
      unfolding ip_distance_step[OF ne inc] by (simp add: it)
  next
    case True
    then have inc: "ip_inc n it = Inr \<lparr>it_end = n, it_i = Suc i, it_j = Suc (Suc i)\<rparr>"
      using ij by (simp add: it ip_inc_step)
    show ?thesis
    proof (cases "Suc (Suc i) = n")
      case last: True
      have "ip_distance n \<lparr>it_end = n, it_i = Suc i, it_j = Suc (Suc i)\<rparr> stop = Inr 0"
        using "1.prems" last by (auto simp: ip_distance_stop ip_ne_def)
      moreover have "ip_rest n i j = [(i, j)]"
        using last True ip_rest_last[of i n] by auto
      ultimately show ?thesis
        unfolding ip_distance_step[OF ne inc] by (simp add: it)
    next
      case False
      then have lt: "Suc (Suc i) < n" using ij True by simp
      have "ip_distance n \<lparr>it_end = n, it_i = Suc i, it_j = Suc (Suc i)\<rparr> stop
          = Inr (length (ip_rest n (Suc i) (Suc (Suc i))))"
        using "1.IH"[OF ne inc] lt "1.prems" by simp
      moreover have "ip_rest n i j = (i, j) # ip_rest n (Suc i) (Suc (Suc i))"
        using lt True by (simp add: ip_rest_row)
      ultimately show ?thesis
        unfolding ip_distance_step[OF ne inc] by (simp add: it)
    qed
  qed
qed

lemma length_concat_rows:
  "length (concat (map (\<lambda>i. map (Pair i) [Suc i..<n]) [0..<m])) = (\<Sum>i<m. n - Suc i)"
  by (induction m) simp_all

lemma sum_rows: "m \<le> n \<Longrightarrow> 2 * (\<Sum>i<m. n - Suc i) + m * (m + 1) = 2 * m * n"
proof (induction m)
  case 0
  then show ?case by simp
next
  case (Suc m)
  then have "2 * (\<Sum>i<m. n - Suc i) + m * (m + 1) = 2 * m * n" by simp
  moreover have "Suc m \<le> n" using Suc.prems .
  ultimately show ?case by (simp add: algebra_simps)
qed

lemma length_triangular_order: "length (triangular_order n) = n * (n - 1) div 2"
proof -
  have "2 * length (triangular_order n) + n * (n + 1) = 2 * n * n"
    unfolding triangular_order_def length_concat_rows by (rule sum_rows) simp
  moreover have "n * (n - 1) + n * (n + 1) = 2 * n * n"
    by (cases n) (simp_all add: algebra_simps)
  ultimately have "2 * length (triangular_order n) = n * (n - 1)" by linarith
  then show ?thesis by simp
qed

subsection \<open>Steps of the cartesian-product iterator\<close>

lemma cp_inc_step:
  "i < n1 \<Longrightarrow> j < n2 \<Longrightarrow>
   cp_inc n1 n2 \<lparr>pos1 = i, last1 = n1, pos2 = j, first2 = 0, last2 = n2\<rparr> =
     Inr (if Suc j = n2 then
            (if Suc i = n1 then \<lparr>pos1 = n1, last1 = n1, pos2 = n2, first2 = 0, last2 = n2\<rparr>
             else \<lparr>pos1 = Suc i, last1 = n1, pos2 = 0, first2 = 0, last2 = n2\<rparr>)
          else \<lparr>pos1 = i, last1 = n1, pos2 = Suc j, first2 = 0, last2 = n2\<rparr>)"
  by (auto simp: cp_inc_def next_it_def)

lemma cp_star_valid:
  "i < n1 \<Longrightarrow> j < n2 \<Longrightarrow>
   cp_star k1 k2 n1 n2 \<lparr>pos1 = i, last1 = n1, pos2 = j, first2 = 0, last2 = n2\<rparr> = Inr (cref_of k1 i, cref_of k2 j)"
  by (simp add: cp_star_def bind_cref_def)

lemma cp_accumulate_step:
  "cp_ne it stop \<Longrightarrow> cp_star k1 k2 n1 n2 it = Inr p \<Longrightarrow> cp_inc n1 n2 it = Inr it' \<Longrightarrow>
   cp_accumulate k1 k2 n1 n2 op it stop init = cp_accumulate k1 k2 n1 n2 op it' stop (op init p)"
  by (subst cp_accumulate.simps) simp

lemma cp_accumulate_stop: "\<not> cp_ne it stop \<Longrightarrow> cp_accumulate k1 k2 n1 n2 op it stop init = Inr init"
  by (subst cp_accumulate.simps) simp

lemma cp_distance_step:
  "cp_ne it stop \<Longrightarrow> cp_inc n1 n2 it = Inr it' \<Longrightarrow>
   cp_distance n1 n2 it stop =
     (case cp_distance n1 n2 it' stop of Inl e \<Rightarrow> Inl e | Inr d \<Rightarrow> Inr (Suc d))"
  by (subst cp_distance.simps) simp

lemma cp_distance_stop: "\<not> cp_ne it stop \<Longrightarrow> cp_distance n1 n2 it stop = Inr 0"
  by (subst cp_distance.simps) simp

lemma cp_rest_inner: "Suc j < n2 \<Longrightarrow> cp_rest n1 n2 i j = (i, j) # cp_rest n1 n2 i (Suc j)"
  by (simp add: cp_rest_def upt_conv_Cons)

lemma cp_rest_last: "Suc i = n1 \<Longrightarrow> Suc j = n2 \<Longrightarrow> cp_rest n1 n2 i j = [(i, j)]"
  by (auto simp: cp_rest_def upt_conv_Cons)

lemma cp_rest_row:
  "Suc i < n1 \<Longrightarrow> Suc j = n2 \<Longrightarrow> cp_rest n1 n2 i j = (i, j) # cp_rest n1 n2 (Suc i) 0"
  by (auto simp: cp_rest_def upt_conv_Cons)

lemma row_major_order_rest: "0 < n1 \<Longrightarrow> row_major_order n1 n2 = cp_rest n1 n2 0 0"
  by (simp add: row_major_order_def cp_rest_def upt_conv_Cons)

lemma cp_accumulate_rest:
  "last1 it = n1 \<Longrightarrow> last2 it = n2 \<Longrightarrow> first2 it = 0 \<Longrightarrow> pos1 it < n1 \<Longrightarrow> pos2 it < n2 \<Longrightarrow>
   pos1 stop = n1 \<Longrightarrow> pos2 stop = n2 \<Longrightarrow>
   cp_accumulate k1 k2 n1 n2 op it stop init =
     Inr (foldl op init (map (cp_pair_view k1 k2) (cp_rest n1 n2 (pos1 it) (pos2 it))))"
proof (induction k1 k2 n1 n2 op it stop init rule: cp_accumulate.induct)
  case (1 k1 k2 n1 n2 op it stop init)
  obtain i j where it: "it = \<lparr>pos1 = i, last1 = n1, pos2 = j, first2 = 0, last2 = n2\<rparr>"
    and ij: "i < n1" "j < n2"
    using "1.prems" by (cases it) auto
  have ne: "cp_ne it stop" using ij "1.prems" by (simp add: cp_ne_def it)
  have star: "cp_star k1 k2 n1 n2 it = Inr (cref_of k1 i, cref_of k2 j)" using ij by (simp add: it cp_star_valid)
  show ?case
  proof (cases "Suc j = n2")
    case False
    then have inc: "cp_inc n1 n2 it = Inr \<lparr>pos1 = i, last1 = n1, pos2 = Suc j, first2 = 0, last2 = n2\<rparr>"
      using ij by (simp add: it cp_inc_step)
    have "cp_accumulate k1 k2 n1 n2 op \<lparr>pos1 = i, last1 = n1, pos2 = Suc j, first2 = 0, last2 = n2\<rparr> stop (op init (cref_of k1 i, cref_of k2 j))
        = Inr (foldl op (op init (cref_of k1 i, cref_of k2 j)) (map (cp_pair_view k1 k2) (cp_rest n1 n2 i (Suc j))))"
      using "1.IH"[OF ne star inc] ij False "1.prems" by simp
    moreover have "cp_rest n1 n2 i j = (i, j) # cp_rest n1 n2 i (Suc j)"
      using ij False by (simp add: cp_rest_inner)
    ultimately show ?thesis
      unfolding cp_accumulate_step[OF ne star inc] by (simp add: it)
  next
    case True
    show ?thesis
    proof (cases "Suc i = n1")
      case last: True
      then have inc: "cp_inc n1 n2 it = Inr \<lparr>pos1 = n1, last1 = n1, pos2 = n2, first2 = 0, last2 = n2\<rparr>"
        using ij True by (simp add: it cp_inc_step)
      have "cp_accumulate k1 k2 n1 n2 op \<lparr>pos1 = n1, last1 = n1, pos2 = n2, first2 = 0, last2 = n2\<rparr> stop (op init (cref_of k1 i, cref_of k2 j))
          = Inr (op init (cref_of k1 i, cref_of k2 j))"
        using "1.prems" by (simp add: cp_accumulate_stop cp_ne_def)
      moreover have "cp_rest n1 n2 i j = [(i, j)]"
        using last True by (simp add: cp_rest_last)
      ultimately show ?thesis
        unfolding cp_accumulate_step[OF ne star inc] by (simp add: it)
    next
      case False
      then have lt: "Suc i < n1" using ij by simp
      have inc: "cp_inc n1 n2 it = Inr \<lparr>pos1 = Suc i, last1 = n1, pos2 = 0, first2 = 0, last2 = n2\<rparr>"
        using ij True False by (simp add: it cp_inc_step)
      have "cp_accumulate k1 k2 n1 n2 op \<lparr>pos1 = Suc i, last1 = n1, pos2 = 0, first2 = 0, last2 = n2\<rparr> stop (op init (cref_of k1 i, cref_of k2 j))
          = Inr (foldl op (op init (cref_of k1 i, cref_of k2 j)) (map (cp_pair_view k1 k2) (cp_rest n1 n2 (Suc i) 0)))"
        using "1.IH"[OF ne star inc] lt ij "1.prems" by simp
      moreover have "cp_rest n1 n2 i j = (i, j) # cp_rest n1 n2 (Suc i) 0"
        using lt True by (simp add: cp_rest_row)
      ultimately show ?thesis
        unfolding cp_accumulate_step[OF ne star inc] by (simp add: it)
    qed
  qed
qed

text \<open>The distance loop makes the same steps as the fold that counts them.\<close>

lemma cp_distance_rest:
  "last1 it = n1 \<Longrightarrow> last2 it = n2 \<Longrightarrow> first2 it = 0 \<Longrightarrow> pos1 it < n1 \<Longrightarrow> pos2 it < n2 \<Longrightarrow>
   pos1 stop = n1 \<Longrightarrow> pos2 stop = n2 \<Longrightarrow>
   cp_distance n1 n2 it stop = Inr (length (cp_rest n1 n2 (pos1 it) (pos2 it)))"
proof (induction n1 n2 it stop rule: cp_distance.induct)
  case (1 n1 n2 it stop)
  obtain i j where it: "it = \<lparr>pos1 = i, last1 = n1, pos2 = j, first2 = 0, last2 = n2\<rparr>"
    and ij: "i < n1" "j < n2"
    using "1.prems" by (cases it) auto
  have ne: "cp_ne it stop" using ij "1.prems" by (simp add: cp_ne_def it)
  show ?case
  proof (cases "Suc j = n2")
    case False
    then have inc: "cp_inc n1 n2 it = Inr \<lparr>pos1 = i, last1 = n1, pos2 = Suc j, first2 = 0, last2 = n2\<rparr>"
      using ij by (simp add: it cp_inc_step)
    have "cp_distance n1 n2 \<lparr>pos1 = i, last1 = n1, pos2 = Suc j, first2 = 0, last2 = n2\<rparr> stop
        = Inr (length (cp_rest n1 n2 i (Suc j)))"
      using "1.IH"[OF ne inc] ij False "1.prems" by simp
    moreover have "cp_rest n1 n2 i j = (i, j) # cp_rest n1 n2 i (Suc j)"
      using ij False by (simp add: cp_rest_inner)
    ultimately show ?thesis
      unfolding cp_distance_step[OF ne inc] by (simp add: it)
  next
    case True
    show ?thesis
    proof (cases "Suc i = n1")
      case last: True
      then have inc: "cp_inc n1 n2 it = Inr \<lparr>pos1 = n1, last1 = n1, pos2 = n2, first2 = 0, last2 = n2\<rparr>"
        using ij True by (simp add: it cp_inc_step)
      have "cp_distance n1 n2 \<lparr>pos1 = n1, last1 = n1, pos2 = n2, first2 = 0, last2 = n2\<rparr> stop = Inr 0"
        using "1.prems" by (simp add: cp_distance_stop cp_ne_def)
      moreover have "cp_rest n1 n2 i j = [(i, j)]"
        using last True by (simp add: cp_rest_last)
      ultimately show ?thesis
        unfolding cp_distance_step[OF ne inc] by (simp add: it)
    next
      case False
      then have lt: "Suc i < n1" using ij by simp
      have inc: "cp_inc n1 n2 it = Inr \<lparr>pos1 = Suc i, last1 = n1, pos2 = 0, first2 = 0, last2 = n2\<rparr>"
        using ij True False by (simp add: it cp_inc_step)
      have "cp_distance n1 n2 \<lparr>pos1 = Suc i, last1 = n1, pos2 = 0, first2 = 0, last2 = n2\<rparr> stop
          = Inr (length (cp_rest n1 n2 (Suc i) 0))"
        using "1.IH"[OF ne inc] lt ij "1.prems" by simp
      moreover have "cp_rest n1 n2 i j = (i, j) # cp_rest n1 n2 (Suc i) 0"
        using lt True by (simp add: cp_rest_row)
      ultimately show ?thesis
        unfolding cp_distance_step[OF ne inc] by (simp add: it)
    qed
  qed
qed

lemma length_row_major_order: "length (row_major_order n1 n2) = n1 * n2"
  by (induction n1) (simp_all add: row_major_order_def)

subsection \<open>The enumeration of \<open>internal_pairs\<close>\<close>

lemma foldl_snoc_map: "foldl (\<lambda>out p. out @ [f p]) acc ps = acc @ map f ps"
  by (induction ps arbitrary: acc) simp_all

lemma ip_begin_valid: "0 < n \<Longrightarrow> ip_begin n = Inr \<lparr>it_end = n, it_i = 0, it_j = 1\<rparr>"
  by (simp add: ip_begin_def next_it_def)

lemma ip_end_valid: "0 < n \<Longrightarrow> ip_end n = Inr \<lparr>it_end = n, it_i = n - 1, it_j = n\<rparr>"
  by (simp add: ip_end_def prev_it_def)

lemma set_triangular_order: "set (triangular_order n) = {(i, j). i < j \<and> j < n}"
  by (fastforce simp: triangular_order_def)

lemma sorted_rows:
  "sorted_wrt lex_less (concat (map (\<lambda>i. map (Pair i) [Suc i..<n]) [k..<m]))"
proof (induction m)
  case 0
  then show ?case by simp
next
  case (Suc m)
  show ?case
  proof (cases "k \<le> m")
    case True
    have row: "sorted_wrt lex_less (map (Pair m) [Suc m..<n])"
      by (simp add: sorted_wrt_map lex_less_def)
    have cross: "\<forall>p \<in> set (concat (map (\<lambda>i. map (Pair i) [Suc i..<n]) [k..<m])).
        \<forall>q \<in> set (map (Pair m) [Suc m..<n]). lex_less p q"
      by (auto simp: lex_less_def)
    show ?thesis
      using True Suc.IH row cross by (simp add: sorted_wrt_append)
  next
    case False
    then show ?thesis by simp
  qed
qed

lemma ip_pairs_order:
  assumes "2 \<le> length xs"
  shows "ip_pairs xs = Inr (map (\<lambda>p. (xs ! fst p, xs ! snd p)) (triangular_order (length xs)))"
proof -
  let ?n = "length xs"
  let ?b = "\<lparr>it_end = ?n, it_i = 0, it_j = 1\<rparr>"
  let ?e = "\<lparr>it_end = ?n, it_i = ?n - 1, it_j = ?n\<rparr>"
  have "ip_accumulate ?n (\<lambda>out p. out @ [(rd xs (fst p), rd xs (snd p))]) ?b ?e [] =
      Inr (foldl (\<lambda>out p. out @ [(rd xs (fst p), rd xs (snd p))]) []
            (map pair_view (ip_rest ?n (it_i ?b) (it_j ?b))))"
    using assms by (intro ip_accumulate_rest) simp_all
  also have "\<dots> = Inr (map (\<lambda>p. (rd xs (fst p), rd xs (snd p))) (map pair_view (triangular_order ?n)))"
    using assms by (simp add: foldl_snoc_map triangular_order_rest)
  also have "\<dots> = Inr (map (\<lambda>p. (xs ! fst p, xs ! snd p)) (triangular_order ?n))"
    by (simp add: comp_def case_prod_beta split_def) (metis pair_view.simps prod.collapse rd.simps fst_conv snd_conv)
  finally have loop: "ip_accumulate ?n (\<lambda>out p. out @ [(rd xs (fst p), rd xs (snd p))]) ?b ?e [] =
      Inr (map (\<lambda>p. (xs ! fst p, xs ! snd p)) (triangular_order ?n))" .
  have pos: "0 < ?n" using assms by linarith
  have b: "ip_begin ?n = Inr ?b" by (rule ip_begin_valid[OF pos])
  have e: "ip_end ?n = Inr ?e" by (rule ip_end_valid[OF pos])
  show ?thesis
    unfolding ip_pairs_def b e using loop by simp
qed

lemma sorted_triangular_order: "sorted_wrt lex_less (triangular_order n)"
  unfolding triangular_order_def by (rule sorted_rows)

lemma hd_triangular_order: "2 \<le> n \<Longrightarrow> hd (triangular_order n) = (0, 1)"
  by (simp add: triangular_order_rest ip_rest_def upt_conv_Cons)

lemma last_triangular_order:
  assumes "2 \<le> n"
  shows "last (triangular_order n) = (n - 2, n - 1)"
proof -
  obtain k where n: "n = Suc (Suc k)" using assms by (metis add_2_eq_Suc le_Suc_ex)
  have "[0..<n] = [0..<k] @ [k, Suc k]" by (simp add: n)
  then have "triangular_order n =
      concat (map (\<lambda>i. map (Pair i) [Suc i..<n]) [0..<k]) @ [(k, Suc k)]"
    by (simp add: triangular_order_def n)
  then show ?thesis by (simp add: n)
qed

subsection \<open>Construction of \<open>cartesian_product\<close>\<close>

lemma cp_size_fresh:
  "n1 * n2 < 2 ^ 63 \<Longrightarrow>
   cp_size \<lparr>m_begin = mk_iterator 0 n1 0 n2, m_end = mk_iterator n1 n1 n2 n2\<rparr> = Inr (of_nat (n1 * n2))"
proof -
  assume "n1 * n2 < 2 ^ 63"
  then have "int n1 * int n2 < 2 ^ 63"
    by (metis of_nat_mult of_nat_less_iff of_nat_numeral of_nat_power)
  moreover have "- (2 ^ 63) \<le> int n1 * int n2"
    by (rule order_trans[of _ 0]) simp_all
  ultimately show ?thesis
    by (simp add: cp_size_def mk_iterator_def distance_it_def Let_def)
qed

lemma cp_size_overflow:
  "2 ^ 63 \<le> n1 * n2 \<Longrightarrow>
   cp_size \<lparr>m_begin = mk_iterator 0 n1 0 n2, m_end = mk_iterator n1 n1 n2 n2\<rparr> = Inl SignedOverflow"
proof -
  assume "2 ^ 63 \<le> n1 * n2"
  then have "\<not> int n1 * int n2 < 2 ^ 63"
    by (metis of_nat_mult of_nat_less_iff of_nat_numeral of_nat_power not_less)
  then show ?thesis
    by (simp add: cp_size_def mk_iterator_def distance_it_def Let_def)
qed

lemma unat_size_t_of_nat: "m < 2 ^ 63 \<Longrightarrow> unat (of_nat m :: size_t) = m"
  by (rule of_nat_inverse[OF refl]) simp

lemma cp_over_nonempty:
  assumes "0 < n1" "0 < n2" "n1 * n2 < 2 ^ 63"
  shows "cp_over n1 n2 = Inr \<lparr>m_begin = mk_iterator 0 n1 0 n2, m_end = mk_iterator n1 n1 n2 n2\<rparr>"
proof -
  have "unat (of_nat (n1 * n2) :: size_t) = n1 * n2"
    using assms(3) by (rule unat_size_t_of_nat)
  then have "(of_nat (n1 * n2) :: size_t) \<noteq> 0"
    using assms(1,2) by (metis unat_0 mult_is_0 less_numeral_extra(3))
  then show ?thesis
    unfolding cp_over_def cartesian_product_def Let_def cp_size_fresh[OF assms(3)] by simp
qed

lemma cp_over_empty:
  "n1 = 0 \<or> n2 = 0 \<Longrightarrow>
   cp_over n1 n2 = Inr \<lparr>m_begin = mk_iterator n1 n1 n2 n2, m_end = mk_iterator n1 n1 n2 n2\<rparr>"
  by (auto simp: cp_over_def cartesian_product_def cp_size_def distance_it_def mk_iterator_def Let_def)

lemma cp_over_overflow: "2 ^ 63 \<le> n1 * n2 \<Longrightarrow> cp_over n1 n2 = Inl SignedOverflow"
  by (simp add: cp_over_def cartesian_product_def cp_size_overflow Let_def)

subsection \<open>The enumeration of \<open>cartesian_product\<close>\<close>

lemma set_row_major_order: "set (row_major_order n1 n2) = {(i, j). i < n1 \<and> j < n2}"
  by (fastforce simp: row_major_order_def)

lemma sorted_row_major_rows:
  "sorted_wrt lex_less (concat (map (\<lambda>i. map (Pair i) [0..<n2]) [0..<m]))"
proof (induction m)
  case 0
  then show ?case by simp
next
  case (Suc m)
  have row: "sorted_wrt lex_less (map (Pair m) [0..<n2])"
    by (simp add: sorted_wrt_map lex_less_def)
  have cross: "\<forall>p \<in> set (concat (map (\<lambda>i. map (Pair i) [0..<n2]) [0..<m])).
      \<forall>q \<in> set (map (Pair m) [0..<n2]). lex_less p q"
    by (auto simp: lex_less_def)
  show ?case
    using Suc.IH row cross by (simp add: sorted_wrt_append)
qed

lemma sorted_row_major_order: "sorted_wrt lex_less (row_major_order n1 n2)"
  unfolding row_major_order_def by (rule sorted_row_major_rows)

lemma cp_accumulate_all:
  assumes "0 < n1" "0 < n2"
  shows "cp_accumulate k1 k2 n1 n2 op (mk_iterator 0 n1 0 n2) (mk_iterator n1 n1 n2 n2) init =
    Inr (foldl op init (map (cp_pair_view k1 k2) (row_major_order n1 n2)))"
proof -
  have "cp_accumulate k1 k2 n1 n2 op (mk_iterator 0 n1 0 n2) (mk_iterator n1 n1 n2 n2) init =
      Inr (foldl op init (map (cp_pair_view k1 k2)
        (cp_rest n1 n2 (pos1 (mk_iterator 0 n1 0 n2)) (pos2 (mk_iterator 0 n1 0 n2)))))"
    using assms by (intro cp_accumulate_rest) (simp_all add: mk_iterator_def)
  then show ?thesis
    using assms by (simp add: mk_iterator_def row_major_order_rest)
qed

lemma map_nth_row_major:
  "map (\<lambda>p. (xs ! fst p, ys ! snd p)) (row_major_order (length xs) (length ys)) = List.product xs ys"
proof -
  have row: "map (\<lambda>p. (xs ! fst p, ys ! snd p)) (map (Pair i) [0..<length ys]) = map (Pair (xs ! i)) ys" for i
    by (rule nth_equalityI) simp_all
  have rows: "map (\<lambda>i. map (Pair (xs ! i)) ys) [0..<length xs] = map (\<lambda>x. map (Pair x) ys) xs"
    by (rule nth_equalityI) simp_all
  have "map (\<lambda>p. (xs ! fst p, ys ! snd p)) (row_major_order (length xs) (length ys)) =
      concat (map (\<lambda>i. map (\<lambda>p. (xs ! fst p, ys ! snd p)) (map (Pair i) [0..<length ys])) [0..<length xs])"
    unfolding row_major_order_def map_concat map_map comp_def ..
  also have "\<dots> = concat (map (\<lambda>x. map (Pair x) ys) xs)"
    unfolding row rows ..
  also have "\<dots> = List.product xs ys"
    by (simp only: product_concat_map)
  finally show ?thesis .
qed

lemma foldl_push_pair_error: "foldl (push_pair xs ys) (Inl e) ps = Inl e"
  by (induction ps) (simp_all add: push_pair_def)

lemma foldl_push_pair_lvalue:
  "foldl (push_pair xs ys) (Inr acc) (map (cp_pair_view Lvalue Lvalue) ps) =
   Inr (acc @ map (\<lambda>p. (xs ! fst p, ys ! snd p)) ps)"
proof (induction ps arbitrary: acc)
  case Nil
  then show ?case by simp
next
  case (Cons p ps)
  obtain i j where p: "p = (i, j)" by (cases p)
  have "push_pair xs ys (Inr acc) (cp_pair_view Lvalue Lvalue p) = Inr (acc @ [(xs ! i, ys ! j)])"
    by (simp add: push_pair_def p)
  then show ?case using Cons.IH[of "acc @ [(xs ! i, ys ! j)]"] by (simp add: p)
qed

lemma foldl_push_pair_proxy:
  assumes "k1 = Proxy \<or> k2 = Proxy" "ps \<noteq> []"
  shows "foldl (push_pair xs ys) (Inr acc) (map (cp_pair_view k1 k2) ps) = Inl DanglingReference"
proof -
  obtain i j qs where ps: "ps = (i, j) # qs" using assms(2) by (cases ps) auto
  have "push_pair xs ys (Inr acc) (cp_pair_view k1 k2 (i, j)) = Inl DanglingReference"
    using assms(1) by (cases k1; cases k2) (simp_all add: push_pair_def)
  then show ?thesis by (simp add: ps foldl_push_pair_error)
qed

lemma cp_pairs_order:
  assumes "0 < length xs" "0 < length ys" "length xs * length ys < 2 ^ 63"
  shows "cp_pairs Lvalue Lvalue xs ys =
    Inr (map (\<lambda>p. (xs ! fst p, ys ! snd p)) (row_major_order (length xs) (length ys)))"
  unfolding cp_pairs_def cp_over_nonempty[OF assms]
  by (simp add: cp_begin_def cp_end_def cp_accumulate_all[OF assms(1,2)] foldl_push_pair_lvalue)

text \<open>
  With a proxy iterator on either side (\<open>std::vector<bool>\<close>) every pair-view holds a
  reference to a destroyed temporary, and the first read in the loop body is undefined.
  \<open>internal_pairs\<close> declares its pair-view with the container's \<open>reference\<close> type and has no
  such case.
\<close>

lemma cp_pairs_proxy:
  assumes "0 < length xs" "0 < length ys" "length xs * length ys < 2 ^ 63"
    and "k1 = Proxy \<or> k2 = Proxy"
  shows "cp_pairs k1 k2 xs ys = Inl DanglingReference"
proof -
  have "row_major_order (length xs) (length ys) \<noteq> []"
    using assms(1,2) by (simp add: row_major_order_rest cp_rest_def upt_conv_Cons)
  then show ?thesis
    unfolding cp_pairs_def cp_over_nonempty[OF assms(1-3)]
    by (simp add: cp_begin_def cp_end_def cp_accumulate_all[OF assms(1,2)]
        foldl_push_pair_proxy[OF assms(4)])
qed

lemma cp_pairs_string_vector_bool:
  "cp_pairs Lvalue Proxy ''ab'' [True, False] = Inl DanglingReference"
  by (rule cp_pairs_proxy) simp_all

lemma cp_sum_second_fold:
  assumes "0 < length xs" "0 < length ys" "length xs * length ys < 2 ^ 63"
  shows "cp_sum_second xs ys =
    foldl (sum_second ys) (Inr 0) (map (cp_pair_view Lvalue Lvalue) (row_major_order (length xs) (length ys)))"
  unfolding cp_sum_second_def cp_over_nonempty[OF assms]
  by (simp add: cp_begin_def cp_end_def cp_accumulate_all[OF assms(1,2)])

lemma cp_sum_second_test: "cp_sum_second [0, 1, 3] [10, 20] = Inr 90"
proof -
  have rm: "row_major_order 3 2 = [(0, 0), (0, 1), (1, 0), (1, 1), (2, 0), (2, 1)]"
    by (simp add: row_major_order_def upt_conv_Cons)
  have l: "length [0, 1, 3 :: cint] = 3" "length [10, 20 :: cint] = 2" by simp_all
  have c: "0 < length [0, 1, 3 :: cint]" "0 < length [10, 20 :: cint]"
    "length [0, 1, 3 :: cint] * length [10, 20 :: cint] < 2 ^ 63" by simp_all
  show ?thesis
    unfolding cp_sum_second_fold[OF c] l rm by (simp add: sum_second_def add_int_def)
qed

lemma cp_size_empty_view:
  "cp_size \<lparr>m_begin = mk_iterator n1 n1 n2 n2, m_end = mk_iterator n1 n1 n2 n2\<rparr> = Inr 0"
  by (simp add: cp_size_def mk_iterator_def distance_it_def)

subsection \<open>Positions of \<open>cartesian_product\<close> reachable from \<open>begin()\<close>\<close>

lemma cp_over_Inr:
  assumes "0 < n1" "0 < n2" "cp_over n1 n2 = Inr v"
  shows "v = \<lparr>m_begin = mk_iterator 0 n1 0 n2, m_end = mk_iterator n1 n1 n2 n2\<rparr>"
proof (cases "n1 * n2 < 2 ^ 63")
  case True
  then show ?thesis using assms cp_over_nonempty by simp
next
  case False
  then have "cp_over n1 n2 = Inl SignedOverflow" by (intro cp_over_overflow) simp
  then show ?thesis using assms(3) by simp
qed

lemma cp_inc_invariant:
  assumes "last1 it = n1" "last2 it = n2" "first2 it = 0" "0 < n2"
    and "(pos1 it < n1 \<and> pos2 it < n2) \<or> (pos1 it = n1 \<and> pos2 it = n2)"
    and "cp_inc n1 n2 it = Inr it'"
  shows "last1 it' = n1 \<and> last2 it' = n2 \<and> first2 it' = 0
    \<and> ((pos1 it' < n1 \<and> pos2 it' < n2) \<or> (pos1 it' = n1 \<and> pos2 it' = n2))"
  using assms by (auto simp: cp_inc_def next_it_def split: if_splits)

lemma cp_advance_invariant:
  assumes "0 < n2" "cp_advance n1 n2 it k = Inr it'"
    and "last1 it = n1" "last2 it = n2" "first2 it = 0"
    and "(pos1 it < n1 \<and> pos2 it < n2) \<or> (pos1 it = n1 \<and> pos2 it = n2)"
  shows "last1 it' = n1 \<and> last2 it' = n2 \<and> first2 it' = 0
    \<and> ((pos1 it' < n1 \<and> pos2 it' < n2) \<or> (pos1 it' = n1 \<and> pos2 it' = n2))"
  using assms
proof (induction k arbitrary: it)
  case 0
  then show ?case by simp
next
  case (Suc k)
  from Suc.prems(2) obtain it1 where inc: "cp_inc n1 n2 it = Inr it1"
    and adv: "cp_advance n1 n2 it1 k = Inr it'"
    by (auto split: sum.splits)
  have inv: "last1 it1 = n1 \<and> last2 it1 = n2 \<and> first2 it1 = 0
    \<and> ((pos1 it1 < n1 \<and> pos2 it1 < n2) \<or> (pos1 it1 = n1 \<and> pos2 it1 = n2))"
    using Suc.prems(3-5) Suc.prems(1) Suc.prems(6) inc by (rule cp_inc_invariant)
  from inv show ?case
    by (intro Suc.IH[OF Suc.prems(1) adv]) simp_all
qed

subsection \<open>\<open>internal_pairs::size\<close> in \<open>size_t\<close>\<close>

lemma unat_vec_size: "length xs < 2 ^ 64 \<Longrightarrow> unat (vec_size xs) = length xs"
  unfolding vec_size_def by (rule of_nat_inverse[OF refl]) simp

lemma length_bound: "length xs * (length xs - 1) < 2 ^ 64 \<Longrightarrow> length xs < 2 ^ 64"
proof (rule ccontr)
  assume a: "length xs * (length xs - 1) < 2 ^ 64" and b: "\<not> length xs < 2 ^ 64"
  from b have "(2::nat) ^ 64 \<le> length xs" by simp
  moreover from this have "1 \<le> length xs - 1" by simp
  ultimately have "(2::nat) ^ 64 * 1 \<le> length xs * (length xs - 1)" by (rule mult_le_mono)
  with a show False by simp
qed

lemma unat_ip_size:
  assumes "length xs * (length xs - 1) < 2 ^ 64"
  shows "unat (ip_size xs) = length xs * (length xs - 1) div 2"
proof -
  let ?n = "length xs"
  have n: "unat (vec_size xs) = ?n"
    using assms by (intro unat_vec_size length_bound)
  show ?thesis
  proof (cases "?n = 0")
    case True
    then show ?thesis by (simp add: ip_size_def vec_size_def)
  next
    case False
    then have "vec_size xs \<noteq> 0" using n by auto
    then have m: "unat (vec_size xs - 1) = ?n - 1" by (simp add: unat_minus_one n)
    have "unat (vec_size xs) * unat (vec_size xs - 1) < 2 ^ LENGTH(64)"
      using assms by (simp add: n m)
    then have "unat (vec_size xs * (vec_size xs - 1)) = ?n * (?n - 1)"
      by (simp add: unat_mult_lem[THEN iffD1] n m)
    then show ?thesis by (simp add: ip_size_def unat_div)
  qed
qed

lemma ip_distance_all:
  assumes "2 \<le> n"
  shows "ip_distance n \<lparr>it_end = n, it_i = 0, it_j = 1\<rparr> \<lparr>it_end = n, it_i = n - 1, it_j = n\<rparr>
    = Inr (n * (n - 1) div 2)"
proof -
  let ?b = "\<lparr>it_end = n, it_i = 0, it_j = 1\<rparr>"
  have "ip_distance n ?b \<lparr>it_end = n, it_i = n - 1, it_j = n\<rparr>
      = Inr (length (ip_rest n (it_i ?b) (it_j ?b)))"
    using assms by (intro ip_distance_rest) simp_all
  also have "ip_rest n (it_i ?b) (it_j ?b) = triangular_order n"
    using assms by (simp add: triangular_order_rest)
  finally show ?thesis
    by (simp only: length_triangular_order)
qed

lemma ip_singleton:
  "ip_begin 1 = Inr \<lparr>it_end = 1, it_i = 0, it_j = 1\<rparr> \<and> ip_end 1 = ip_begin 1"
  by (simp add: ip_begin_def ip_end_def next_it_def prev_it_def)

lemma cp_advance_Suc:
  "cp_advance n1 n2 it (Suc k) =
     (case cp_advance n1 n2 it k of Inl e \<Rightarrow> Inl e | Inr it' \<Rightarrow> cp_inc n1 n2 it')"
proof (induction k arbitrary: it)
  case 0
  then show ?case by (simp split: sum.splits)
next
  case (Suc k)
  show ?case
  proof (cases "cp_inc n1 n2 it")
    case (Inl e)
    then show ?thesis by simp
  next
    case (Inr it1)
    have "cp_advance n1 n2 it (Suc (Suc k)) = cp_advance n1 n2 it1 (Suc k)"
      using Inr by simp
    also have "\<dots> = (case cp_advance n1 n2 it1 k of Inl e \<Rightarrow> Inl e | Inr it' \<Rightarrow> cp_inc n1 n2 it')"
      by (rule Suc.IH)
    also have "cp_advance n1 n2 it1 k = cp_advance n1 n2 it (Suc k)"
      using Inr by simp
    finally show ?thesis .
  qed
qed

text \<open>
  The position \<open>k\<close> unit advances after \<open>begin()\<close>: the pair \<open>(k div n2, k mod n2)\<close> while
  \<open>k < n1 * n2\<close>, and the end sentinel at \<open>k = n1 * n2\<close>.
\<close>

lemma cp_advance_index:
  assumes "0 < n1" "0 < n2" "k \<le> n1 * n2"
  shows "cp_advance n1 n2 (mk_iterator 0 n1 0 n2) k =
    Inr (if k = n1 * n2 then \<lparr>pos1 = n1, last1 = n1, pos2 = n2, first2 = 0, last2 = n2\<rparr>
         else \<lparr>pos1 = k div n2, last1 = n1, pos2 = k mod n2, first2 = 0, last2 = n2\<rparr>)"
  using assms(3)
proof (induction k)
  case 0
  then show ?case using assms(1,2) by (auto simp: mk_iterator_def)
next
  case (Suc k)
  have lt: "k < n1 * n2" using Suc.prems by simp
  then have i: "k div n2 < n1"
    by (simp add: less_mult_imp_div_less mult.commute)
  have j: "k mod n2 < n2" using assms(2) by simp
  have prev: "cp_advance n1 n2 (mk_iterator 0 n1 0 n2) k =
      Inr \<lparr>pos1 = k div n2, last1 = n1, pos2 = k mod n2, first2 = 0, last2 = n2\<rparr>"
    using Suc.IH lt by simp
  have step: "cp_advance n1 n2 (mk_iterator 0 n1 0 n2) (Suc k) =
      Inr (if Suc (k mod n2) = n2 then
            (if Suc (k div n2) = n1 then \<lparr>pos1 = n1, last1 = n1, pos2 = n2, first2 = 0, last2 = n2\<rparr>
             else \<lparr>pos1 = Suc (k div n2), last1 = n1, pos2 = 0, first2 = 0, last2 = n2\<rparr>)
          else \<lparr>pos1 = k div n2, last1 = n1, pos2 = Suc (k mod n2), first2 = 0, last2 = n2\<rparr>)"
    unfolding cp_advance_Suc prev by (simp add: cp_inc_step[OF i j])
  have k: "k = k div n2 * n2 + k mod n2" by simp
  show ?case
  proof (cases "Suc (k mod n2) = n2")
    case wrap: True
    then have m: "Suc k mod n2 = 0" and d: "Suc k div n2 = Suc (k div n2)"
      by (simp_all add: mod_Suc div_Suc)
    have sk: "Suc k = Suc (k div n2) * n2"
      using k wrap by (metis add_Suc_right mult_Suc add.commute)
    show ?thesis
    proof (cases "Suc (k div n2) = n1")
      case True
      then have "Suc k = n1 * n2" using sk by simp
      then show ?thesis using step wrap True by simp
    next
      case False
      have "Suc k \<noteq> n1 * n2"
      proof
        assume "Suc k = n1 * n2"
        then have "Suc k div n2 = n1" using assms(2) by simp
        with d False show False by simp
      qed
      then show ?thesis using step wrap False m d by simp
    qed
  next
    case False
    then have m: "Suc k mod n2 = Suc (k mod n2)" and d: "Suc k div n2 = k div n2"
      by (simp_all add: mod_Suc div_Suc)
    have "Suc k mod n2 \<noteq> (n1 * n2) mod n2" using m by simp
    then have "Suc k \<noteq> n1 * n2" by metis
    then show ?thesis using step False m d by simp
  qed
qed

section \<open>The claims\<close>

text \<open>
  Claim C1. For every sequence of length \<open>n \<ge> 2\<close>, the range-based loop over
  \<open>internal_pairs\<close> visits the pairs (element \<open>i\<close>, element \<open>j\<close>) in row-major triangular
  order: the index pairs are exactly those with \<open>i < j < n\<close>, in strictly increasing
  lexicographic order, from \<open>(0, 1)\<close> to \<open>(n - 2, n - 1)\<close>. \<open>begin()\<close> dereferences to
  (element 0, element 1); the position at \<open>(n - 2, n - 1)\<close> dereferences to those elements
  and one step takes it to \<open>end()\<close>. A step increments \<open>j\<close>, and when \<open>j\<close> reaches the end
  of the sequence it increments \<open>i\<close> and sets \<open>j\<close> to the position after \<open>i\<close>.
\<close>

theorem internal_pairs_enumeration:
  assumes "2 \<le> length xs"
  shows "ip_pairs xs = Inr (map (\<lambda>p. (xs ! fst p, xs ! snd p)) (triangular_order (length xs)))
    \<and> set (triangular_order (length xs)) = {(i, j). i < j \<and> j < length xs}
    \<and> sorted_wrt lex_less (triangular_order (length xs))
    \<and> hd (triangular_order (length xs)) = (0, 1)
    \<and> last (triangular_order (length xs)) = (length xs - 2, length xs - 1)
    \<and> ip_begin (length xs) = Inr \<lparr>it_end = length xs, it_i = 0, it_j = 1\<rparr>
    \<and> ip_star (length xs) \<lparr>it_end = length xs, it_i = 0, it_j = 1\<rparr> = Inr (Ref 0, Ref 1)
    \<and> ip_star (length xs) \<lparr>it_end = length xs, it_i = length xs - 2, it_j = length xs - 1\<rparr>
        = Inr (Ref (length xs - 2), Ref (length xs - 1))
    \<and> ip_inc (length xs) \<lparr>it_end = length xs, it_i = length xs - 2, it_j = length xs - 1\<rparr>
        = ip_end (length xs)
    \<and> (\<forall>i j. i < j \<and> j < length xs \<longrightarrow>
          ip_inc (length xs) \<lparr>it_end = length xs, it_i = i, it_j = j\<rparr> =
            Inr (if Suc j = length xs
                 then \<lparr>it_end = length xs, it_i = Suc i, it_j = Suc (Suc i)\<rparr>
                 else \<lparr>it_end = length xs, it_i = i, it_j = Suc j\<rparr>))"
proof -
  let ?n = "length xs"
  have pos: "0 < ?n" and lt: "?n - 2 < ?n - 1" "?n - 1 < ?n" "(0::nat) < 1" "1 < ?n"
    using assms by linarith+
  obtain k where k: "?n = Suc (Suc k)"
    using assms by (metis add_2_eq_Suc le_Suc_ex)
  have "ip_inc (Suc (Suc k)) \<lparr>it_end = Suc (Suc k), it_i = k, it_j = Suc k\<rparr> = ip_end (Suc (Suc k))"
    by (simp add: ip_inc_step ip_end_valid)
  then have last_step: "ip_inc ?n \<lparr>it_end = ?n, it_i = ?n - 2, it_j = ?n - 1\<rparr> = ip_end ?n"
    by (simp add: k)
  show ?thesis
    using ip_pairs_order[OF assms] hd_triangular_order[OF assms] last_triangular_order[OF assms]
      ip_begin_valid[OF pos] ip_star_valid[OF lt(3,4)] ip_star_valid[OF lt(1,2)] last_step
    by (simp add: set_triangular_order sorted_triangular_order ip_inc_step)
qed

theorem internal_pairs_enumeration_witness:
  "ip_pairs [0, 1, 2, 3 :: int] = Inr [(0, 1), (0, 2), (0, 3), (1, 2), (1, 3), (2, 3)]
   \<and> ip_inc 4 \<lparr>it_end = 4, it_i = 0, it_j = 3\<rparr> = Inr \<lparr>it_end = 4, it_i = 1, it_j = 2\<rparr>
   \<and> ip_inc 4 \<lparr>it_end = 4, it_i = 2, it_j = 3\<rparr> = ip_end 4"
proof -
  have len: "2 \<le> length [0, 1, 2, 3 :: int]" by simp
  have l: "length [0, 1, 2, 3 :: int] = 4" by simp
  have tri: "triangular_order 4 = [(0, 1), (0, 2), (0, 3), (1, 2), (1, 3), (2, 3)]"
    by (simp add: triangular_order_def upt_conv_Cons)
  note th = internal_pairs_enumeration[OF len, unfolded l]
  have a: "ip_pairs [0, 1, 2, 3 :: int] =
      Inr (map (\<lambda>p. ([0, 1, 2, 3] ! fst p, [0, 1, 2, 3] ! snd p)) (triangular_order 4))"
    using th by (rule conjunct1)
  have b: "\<forall>i j. i < j \<and> j < 4 \<longrightarrow>
          ip_inc 4 \<lparr>it_end = 4, it_i = i, it_j = j\<rparr> =
            Inr (if Suc j = 4 then \<lparr>it_end = 4, it_i = Suc i, it_j = Suc (Suc i)\<rparr>
                 else \<lparr>it_end = 4, it_i = i, it_j = Suc j\<rparr>)"
    using th by blast
  have c: "ip_inc 4 \<lparr>it_end = 4, it_i = 4 - 2, it_j = 4 - 1\<rparr> = ip_end 4"
    using th by blast
  have "ip_inc 4 \<lparr>it_end = 4, it_i = 0, it_j = 3\<rparr> = Inr \<lparr>it_end = 4, it_i = 1, it_j = 2\<rparr>"
    using b[rule_format, of 0 3] by simp
  moreover have "ip_inc 4 \<lparr>it_end = 4, it_i = 2, it_j = 3\<rparr> = ip_end 4"
    using c by simp
  moreover have "ip_pairs [0, 1, 2, 3 :: int] = Inr [(0, 1), (0, 2), (0, 3), (1, 2), (1, 3), (2, 3)]"
    unfolding a tri by simp
  ultimately show ?thesis by blast
qed

text \<open>
  Claim C2, amended. For every pair of sequences whose iterators dereference to lvalues
  of their element type (every container but a proxy container such as
  \<open>std::vector<bool>\<close>), of lengths \<open>n1 \<ge> 1\<close> and \<open>n2 \<ge> 1\<close> whose product \<open>n1 * n2\<close> fits
  \<open>std::ptrdiff_t\<close> (is less than \<open>2^63\<close>), the range-based loop over \<open>cartesian_product\<close>
  visits exactly the \<open>n1 * n2\<close> ordered pairs with the second sequence's index varying
  fastest: the index pairs are all \<open>(i, j)\<close> with \<open>i < n1\<close> and \<open>j < n2\<close> in strictly
  increasing lexicographic order. For the \<open>std::vector<int>\<close> \<open>[0,1,3]\<close> and \<open>[10,20]\<close> the
  order is \<open>(0,10), (0,20), (1,10), (1,20), (3,10), (3,20)\<close> and the fold adding the
  second components in \<open>int\<close> yields 90.
\<close>

theorem cartesian_product_enumeration:
  assumes "1 \<le> length xs" "1 \<le> length ys" "length xs * length ys < 2 ^ 63"
  shows "cp_pairs Lvalue Lvalue xs ys =
      Inr (map (\<lambda>p. (xs ! fst p, ys ! snd p)) (row_major_order (length xs) (length ys)))
    \<and> cp_pairs Lvalue Lvalue xs ys = Inr (List.product xs ys)
    \<and> length (row_major_order (length xs) (length ys)) = length xs * length ys
    \<and> set (row_major_order (length xs) (length ys)) = {(i, j). i < length xs \<and> j < length ys}
    \<and> sorted_wrt lex_less (row_major_order (length xs) (length ys))
    \<and> cp_pairs Lvalue Lvalue [0, 1, 3 :: cint] [10, 20 :: cint] =
        Inr [(0, 10), (0, 20), (1, 10), (1, 20), (3, 10), (3, 20)]
    \<and> cp_sum_second [0, 1, 3] [10, 20] = Inr 90"
proof -
  have pos: "0 < length xs" "0 < length ys" using assms by linarith+
  have rm: "row_major_order 3 2 = [(0, 0), (0, 1), (1, 0), (1, 1), (2, 0), (2, 1)]"
    by (simp add: row_major_order_def upt_conv_Cons)
  have l: "length [0, 1, 3 :: cint] = 3" "length [10, 20 :: cint] = 2" by simp_all
  have c: "0 < length [0, 1, 3 :: cint]" "0 < length [10, 20 :: cint]"
    "length [0, 1, 3 :: cint] * length [10, 20 :: cint] < 2 ^ 63" by simp_all
  have test: "cp_pairs Lvalue Lvalue [0, 1, 3 :: cint] [10, 20 :: cint] =
      Inr [(0, 10), (0, 20), (1, 10), (1, 20), (3, 10), (3, 20)]"
    unfolding cp_pairs_order[OF c] l rm by simp
  show ?thesis
    using cp_pairs_order[OF pos assms(3)] test cp_sum_second_test
    by (simp add: map_nth_row_major length_row_major_order set_row_major_order
        sorted_row_major_order)
qed

theorem cartesian_product_enumeration_witness:
  "cp_pairs Lvalue Lvalue ''ab'' [7, 8, 9 :: int] =
     Inr [(CHR ''a'', 7), (CHR ''a'', 8), (CHR ''a'', 9), (CHR ''b'', 7), (CHR ''b'', 8),
          (CHR ''b'', 9)]"
proof -
  have h: "1 \<le> length ''ab''" "1 \<le> length [7, 8, 9 :: int]"
    "length ''ab'' * length [7, 8, 9 :: int] < 2 ^ 63" by simp_all
  have "cp_pairs Lvalue Lvalue ''ab'' [7, 8, 9 :: int] = Inr (List.product ''ab'' [7, 8, 9])"
    using cartesian_product_enumeration[OF h] by blast
  then show ?thesis by simp
qed

text \<open>
  Without the bound the enumeration is not defined: for two sequences of \<open>2^32\<close> elements
  the constructor's call of \<open>size()\<close> multiplies \<open>2^32\<close> by \<open>2^32\<close> in \<open>std::ptrdiff_t\<close>.
\<close>

theorem cartesian_product_enumeration_overflow:
  "1 \<le> length (replicate 4294967296 (0::int))
   \<and> 1 \<le> length (replicate 4294967296 (1::int))
   \<and> cp_pairs Lvalue Lvalue (replicate 4294967296 (0::int)) (replicate 4294967296 (1::int))
       = Inl SignedOverflow"
  by (simp add: cp_pairs_def cp_over_overflow)

text \<open>
  Claim C3, amended. For every sequence of length \<open>n\<close> with \<open>n * (n - 1) < 2^64\<close> (the
  product fits \<open>size_t\<close>), \<open>size()\<close> of \<open>internal_pairs\<close> returns \<open>n * (n - 1) / 2\<close>; and for
  \<open>n \<ge> 1\<close>, \<open>begin()\<close> and \<open>end()\<close> are defined and \<open>std::distance(begin(), end())\<close>, the number
  of unit advances that take \<open>begin()\<close> to a position equal to \<open>end()\<close>, is that value.
\<close>

theorem internal_pairs_size_distance:
  assumes "length xs * (length xs - 1) < 2 ^ 64"
  shows "unat (ip_size xs) = length xs * (length xs - 1) div 2
    \<and> (1 \<le> length xs \<longrightarrow>
         (\<exists>b e. ip_begin (length xs) = Inr b \<and> ip_end (length xs) = Inr e
            \<and> ip_distance (length xs) b e = Inr (unat (ip_size xs))))"
proof -
  let ?n = "length xs"
  have size: "unat (ip_size xs) = ?n * (?n - 1) div 2"
    using assms by (rule unat_ip_size)
  have "\<exists>b e. ip_begin ?n = Inr b \<and> ip_end ?n = Inr e
      \<and> ip_distance ?n b e = Inr (unat (ip_size xs))" if n: "1 \<le> ?n"
  proof -
    have pos: "0 < ?n" using n by linarith
    let ?b = "\<lparr>it_end = ?n, it_i = 0, it_j = 1\<rparr>"
    let ?e = "\<lparr>it_end = ?n, it_i = ?n - 1, it_j = ?n\<rparr>"
    have "ip_distance ?n ?b ?e = Inr (?n * (?n - 1) div 2)"
    proof (cases "?n = 1")
      case True
      then have "\<not> ip_ne ?b ?e" by (simp add: ip_ne_def)
      then have "ip_distance ?n ?b ?e = Inr 0" by (rule ip_distance_stop)
      then show ?thesis using True by simp
    next
      case False
      then have "2 \<le> ?n" using n by linarith
      then show ?thesis by (rule ip_distance_all)
    qed
    then show ?thesis
      using ip_begin_valid[OF pos] ip_end_valid[OF pos] size by simp
  qed
  then show ?thesis using size by blast
qed

theorem internal_pairs_size_distance_witness:
  "unat (ip_size [0, 1, 2, 3 :: int]) = 6
   \<and> (\<exists>b e. ip_begin 4 = Inr b \<and> ip_end 4 = Inr e \<and> ip_distance 4 b e = Inr 6)"
proof -
  have h: "length [0, 1, 2, 3 :: int] * (length [0, 1, 2, 3 :: int] - 1) < 2 ^ 64" by simp
  have l: "length [0, 1, 2, 3 :: int] = 4" by simp
  note th = internal_pairs_size_distance[OF h, unfolded l]
  have s: "unat (ip_size [0, 1, 2, 3 :: int]) = 6" using th by simp
  have "(1::nat) \<le> 4" by simp
  then have "\<exists>b e. ip_begin 4 = Inr b \<and> ip_end 4 = Inr e
      \<and> ip_distance 4 b e = Inr (unat (ip_size [0, 1, 2, 3 :: int]))"
    using th by blast
  then show ?thesis using s by simp
qed

text \<open>
  Without the bound \<open>size()\<close> wraps: for a sequence of \<open>2^33\<close> elements it returns
  \<open>2^63 - 2^32\<close>, not \<open>2^33 * (2^33 - 1) / 2 = 2^65 - 2^32\<close>.
\<close>

theorem internal_pairs_size_overflow:
  "unat (ip_size (replicate 8589934592 (0::int))) \<noteq>
     length (replicate 8589934592 (0::int)) * (length (replicate 8589934592 (0::int)) - 1) div 2"
  by (simp add: ip_size_def vec_size_def)

text \<open>
  Claim C4, amended. For every pair of sequences of lengths \<open>n1 \<ge> 0\<close> and \<open>n2 \<ge> 0\<close> whose
  product \<open>n1 * n2\<close> fits \<open>std::ptrdiff_t\<close> (is less than \<open>2^63\<close>), the constructor of
  \<open>cartesian_product\<close> returns a view whose \<open>size()\<close> is \<open>n1 * n2\<close>; if either length is 0,
  \<open>begin()\<close> equals \<open>end()\<close> right after construction, and a loop from \<open>begin()\<close> to \<open>end()\<close>
  returns its initial state: the body runs zero times.
\<close>

theorem cartesian_product_size:
  assumes "n1 * n2 < 2 ^ 63"
  shows "\<exists>v s. cp_over n1 n2 = Inr v \<and> cp_size v = Inr s \<and> unat s = n1 * n2
    \<and> (n1 = 0 \<or> n2 = 0 \<longrightarrow>
         \<not> cp_ne (cp_begin v) (cp_end v)
         \<and> (\<forall>k1 k2 op init.
               cp_accumulate k1 k2 n1 n2 op (cp_begin v) (cp_end v) init = Inr init)
         \<and> cp_distance n1 n2 (cp_begin v) (cp_end v) = Inr 0)"
proof (cases "n1 = 0 \<or> n2 = 0")
  case True
  let ?v = "\<lparr>m_begin = mk_iterator n1 n1 n2 n2, m_end = mk_iterator n1 n1 n2 n2\<rparr>"
  have eq: "\<not> cp_ne (cp_begin ?v) (cp_end ?v)"
    by (simp add: cp_ne_def cp_begin_def cp_end_def)
  have "cp_over n1 n2 = Inr ?v" using True by (rule cp_over_empty)
  moreover have "cp_size ?v = Inr 0" by (rule cp_size_empty_view)
  moreover have "unat (0 :: size_t) = n1 * n2" using True by auto
  moreover have "\<forall>k1 k2 op init.
      cp_accumulate k1 k2 n1 n2 op (cp_begin ?v) (cp_end ?v) init = Inr init"
    using eq by (simp add: cp_accumulate_stop)
  moreover have "cp_distance n1 n2 (cp_begin ?v) (cp_end ?v) = Inr 0"
    using eq by (rule cp_distance_stop)
  ultimately show ?thesis using eq by blast
next
  case False
  let ?v = "\<lparr>m_begin = mk_iterator 0 n1 0 n2, m_end = mk_iterator n1 n1 n2 n2\<rparr>"
  have "cp_over n1 n2 = Inr ?v" using False assms by (intro cp_over_nonempty) simp_all
  moreover have "cp_size ?v = Inr (of_nat (n1 * n2))" using assms by (rule cp_size_fresh)
  moreover have "unat (of_nat (n1 * n2) :: size_t) = n1 * n2"
    using assms by (rule unat_size_t_of_nat)
  ultimately show ?thesis using False by blast
qed

theorem cartesian_product_size_witness:
  "(\<exists>v s. cp_over 0 2 = Inr v \<and> cp_size v = Inr s \<and> unat s = 0
      \<and> \<not> cp_ne (cp_begin v) (cp_end v)
      \<and> cp_accumulate Lvalue Lvalue 0 2 (\<lambda>c p. Suc c) (cp_begin v) (cp_end v) 0 = Inr 0)
   \<and> (\<exists>v s. cp_over 3 2 = Inr v \<and> cp_size v = Inr s \<and> unat s = 6)"
proof -
  have a: "(0::nat) * 2 < 2 ^ 63" and b: "(3::nat) * 2 < 2 ^ 63" by simp_all
  obtain v s where e: "cp_over 0 2 = Inr v" "cp_size v = Inr s" "unat s = 0 * 2"
      "(0::nat) = 0 \<or> (2::nat) = 0 \<longrightarrow>
         \<not> cp_ne (cp_begin v) (cp_end v)
         \<and> (\<forall>k1 k2 op init.
               cp_accumulate k1 k2 0 2 op (cp_begin v) (cp_end v) init = Inr (init::nat))
         \<and> cp_distance 0 2 (cp_begin v) (cp_end v) = Inr 0"
    using cartesian_product_size[OF a] by blast
  obtain w t where f: "cp_over 3 2 = Inr w" "cp_size w = Inr t" "unat t = 3 * 2"
    using cartesian_product_size[OF b] by blast
  have "\<not> cp_ne (cp_begin v) (cp_end v)"
    and "cp_accumulate Lvalue Lvalue 0 2 (\<lambda>c p. Suc c) (cp_begin v) (cp_end v) 0 = Inr 0"
    using e(4) by simp_all
  then have "\<exists>v s. cp_over 0 2 = Inr v \<and> cp_size v = Inr s \<and> unat s = 0
      \<and> \<not> cp_ne (cp_begin v) (cp_end v)
      \<and> cp_accumulate Lvalue Lvalue 0 2 (\<lambda>c p. Suc c) (cp_begin v) (cp_end v) 0 = Inr 0"
    using e(1-3) by auto
  moreover have "\<exists>v s. cp_over 3 2 = Inr v \<and> cp_size v = Inr s \<and> unat s = 6"
    using f by auto
  ultimately show ?thesis by (rule conjI)
qed

text \<open>
  Without the bound the constructor, which calls \<open>size()\<close>, has no defined result: for
  two sequences of \<open>2^32\<close> elements the product of the two distances overflows
  \<open>std::ptrdiff_t\<close>.
\<close>

theorem cartesian_product_size_overflow:
  "cp_over 4294967296 4294967296 = Inl SignedOverflow"
  by (simp add: cp_over_overflow)

text \<open>
  Claim C5. \<open>begin()\<close> and \<open>end()\<close> of \<open>internal_pairs\<close> over an empty sequence: \<open>begin()\<close>
  takes \<open>std::next\<close> of the past-the-end iterator and \<open>end()\<close> takes \<open>std::prev\<close> of
  \<open>vec.begin()\<close>; neither is defined, so no two positions exist to compare equal and the
  loop over the view has no defined result, while \<open>size()\<close> is 0.
\<close>

theorem internal_pairs_empty_undefined:
  "ip_begin 0 = Inl InvalidIterator \<and> ip_end 0 = Inl InvalidIterator
   \<and> ip_pairs ([] :: int list) = Inl InvalidIterator \<and> ip_size ([] :: int list) = 0"
  by (simp add: ip_begin_def ip_end_def ip_pairs_def next_it_def prev_it_def ip_size_def vec_size_def)

text \<open>
  Claim C6. For both views, two positions compare equal (\<open>operator!=\<close> returns false)
  exactly when both cursors match: \<open>i\<close> and \<open>j\<close> for \<open>internal_pairs\<close>, \<open>pos1\<close> and \<open>pos2\<close> for
  \<open>cartesian_product\<close>. One matching cursor is not enough: positions that share \<open>j\<close> (or
  \<open>i\<close>, \<open>pos1\<close>, \<open>pos2\<close>) and differ in the other cursor compare unequal.
\<close>

theorem position_equality_both_cursors:
  "(\<not> ip_ne p q \<longleftrightarrow> it_i p = it_i q \<and> it_j p = it_j q)
   \<and> (\<not> cp_ne a b \<longleftrightarrow> pos1 a = pos1 b \<and> pos2 a = pos2 b)
   \<and> ip_ne \<lparr>it_end = 4, it_i = 0, it_j = 3\<rparr> \<lparr>it_end = 4, it_i = 1, it_j = 3\<rparr>
   \<and> ip_ne \<lparr>it_end = 4, it_i = 0, it_j = 2\<rparr> \<lparr>it_end = 4, it_i = 0, it_j = 3\<rparr>
   \<and> cp_ne (mk_iterator 0 3 0 2) (mk_iterator 1 3 0 2)
   \<and> cp_ne (mk_iterator 0 3 0 2) (mk_iterator 0 3 1 2)"
  by (simp add: ip_ne_def cp_ne_def mk_iterator_def)

theorem position_equality_both_cursors_witness:
  "\<not> ip_ne \<lparr>it_end = 4, it_i = 1, it_j = 2\<rparr> \<lparr>it_end = 4, it_i = 1, it_j = 2\<rparr>
   \<and> ip_ne \<lparr>it_end = 4, it_i = 2, it_j = 3\<rparr> \<lparr>it_end = 4, it_i = 3, it_j = 4\<rparr>
   \<and> \<not> cp_ne (mk_iterator 3 3 2 2) (mk_iterator 3 3 2 2)
   \<and> cp_ne (mk_iterator 2 3 1 2) (mk_iterator 3 3 2 2)"
  using position_equality_both_cursors
      [of "\<lparr>it_end = 4, it_i = 1, it_j = 2\<rparr>" "\<lparr>it_end = 4, it_i = 1, it_j = 2\<rparr>"
          "mk_iterator 3 3 2 2" "mk_iterator 3 3 2 2"]
    position_equality_both_cursors
      [of "\<lparr>it_end = 4, it_i = 2, it_j = 3\<rparr>" "\<lparr>it_end = 4, it_i = 3, it_j = 4\<rparr>"
          "mk_iterator 2 3 1 2" "mk_iterator 3 3 2 2"]
  by (simp add: mk_iterator_def)

text \<open>
  Claim C7. For \<open>internal_pairs\<close> over a sequence of length \<open>n \<ge> 2\<close> and a position at the
  pair \<open>(i, j)\<close> with \<open>i < j < n\<close>, dereferencing gives references to the elements \<open>i\<close> and
  \<open>j\<close>, and assigning \<open>v\<close> through the first one sets element \<open>i\<close> of the sequence to \<open>v\<close>
  and leaves the length and every other element as they were.
\<close>

theorem internal_pairs_write_through:
  assumes "2 \<le> length xs" "i < j" "j < length xs"
  shows "\<exists>r1 r2. ip_star (length xs) \<lparr>it_end = length xs, it_i = i, it_j = j\<rparr> = Inr (r1, r2)
    \<and> rd xs r1 = xs ! i \<and> rd xs r2 = xs ! j
    \<and> wr xs r1 v ! i = v
    \<and> length (wr xs r1 v) = length xs
    \<and> (\<forall>k. k < length xs \<and> k \<noteq> i \<longrightarrow> wr xs r1 v ! k = xs ! k)"
proof -
  have "ip_star (length xs) \<lparr>it_end = length xs, it_i = i, it_j = j\<rparr> = Inr (Ref i, Ref j)"
    using assms(2,3) by (rule ip_star_valid)
  moreover have "wr xs (Ref i) v ! i = v" using assms(2,3) by simp
  moreover have "\<forall>k. k < length xs \<and> k \<noteq> i \<longrightarrow> wr xs (Ref i) v ! k = xs ! k" by simp
  ultimately show ?thesis by simp
qed

theorem internal_pairs_write_through_witness:
  "\<exists>b r1 r2. ip_begin 4 = Inr b \<and> ip_star 4 b = Inr (r1, r2)
     \<and> rd [0, 1, 2, 3 :: int] r1 = 0 \<and> rd [0, 1, 2, 3 :: int] r2 = 1
     \<and> wr [0, 1, 2, 3 :: int] r1 (- 1) = [- 1, 1, 2, 3]"
proof -
  have h: "2 \<le> length [0, 1, 2, 3 :: int]" "(0::nat) < 1" "1 < length [0, 1, 2, 3 :: int]"
    by simp_all
  have l: "length [0, 1, 2, 3 :: int] = 4" by simp
  obtain r1 r2 where r: "ip_star 4 \<lparr>it_end = 4, it_i = 0, it_j = 1\<rparr> = Inr (r1, r2)"
      "rd [0, 1, 2, 3 :: int] r1 = [0, 1, 2, 3] ! 0" "rd [0, 1, 2, 3 :: int] r2 = [0, 1, 2, 3] ! 1"
    using internal_pairs_write_through[OF h, unfolded l] by blast
  have "r1 = Ref 0" using r(1) by (simp add: ip_star_def deref_def)
  then have "wr [0, 1, 2, 3 :: int] r1 (- 1) = [- 1, 1, 2, 3]" by simp
  moreover have "ip_begin 4 = Inr \<lparr>it_end = 4, it_i = 0, it_j = 1\<rparr>"
    by (simp add: ip_begin_def next_it_def)
  ultimately show ?thesis using r by simp
qed




text \<open>
  Claim C9, amended. For a \<open>cartesian_product\<close> over sequences of lengths \<open>n1 \<ge> 1\<close> and
  \<open>n2 \<ge> 1\<close> whose product \<open>n1 * n2\<close> fits \<open>std::ptrdiff_t\<close> (is less than \<open>2^63\<close>), the
  constructor returns a view, and every position reached from its \<open>begin()\<close> by unit
  advances is either dereferenceable (\<open>pos1\<close> before \<open>last1\<close> and \<open>pos2\<close> before \<open>last2\<close>) or
  the end sentinel (\<open>pos1 = last1\<close> and \<open>pos2 = last2\<close>, equal to \<open>end()\<close>). The mixed state
  \<open>pos1 = last1\<close>, \<open>pos2 = first2\<close> is never reached: a step that takes \<open>pos1\<close> to \<open>last1\<close>
  leaves \<open>pos2\<close> at \<open>last2\<close>. Every number of advances up to \<open>n1 * n2\<close> is defined, exactly
  \<open>n1 * n2\<close> of them reach \<open>end()\<close>, and one more is undefined.
\<close>

theorem cartesian_product_reachable:
  assumes "1 \<le> n1" "1 \<le> n2" "n1 * n2 < 2 ^ 63"
  shows "\<exists>v. cp_over n1 n2 = Inr v
    \<and> (\<forall>k it. cp_advance n1 n2 (cp_begin v) k = Inr it \<longrightarrow>
         ((pos1 it < last1 it \<and> pos2 it < last2 it
             \<and> (\<forall>k1 k2. cp_star k1 k2 n1 n2 it =
                    Inr (cref_of k1 (pos1 it), cref_of k2 (pos2 it))))
           \<or> (pos1 it = last1 it \<and> pos2 it = last2 it \<and> \<not> cp_ne it (cp_end v)))
         \<and> \<not> (pos1 it = last1 it \<and> pos2 it = first2 it)
         \<and> (\<forall>it'. cp_inc n1 n2 it = Inr it' \<and> pos1 it' = last1 it' \<longrightarrow> pos2 it' = last2 it'))
    \<and> (\<forall>k \<le> n1 * n2. \<exists>it. cp_advance n1 n2 (cp_begin v) k = Inr it)
    \<and> (\<exists>it. cp_advance n1 n2 (cp_begin v) (n1 * n2) = Inr it \<and> \<not> cp_ne it (cp_end v))
    \<and> cp_advance n1 n2 (cp_begin v) (Suc (n1 * n2)) = Inl InvalidIterator"
proof -
  have pos: "0 < n1" "0 < n2" using assms(1,2) by linarith+
  let ?v = "\<lparr>m_begin = mk_iterator 0 n1 0 n2, m_end = mk_iterator n1 n1 n2 n2\<rparr>"
  let ?e = "\<lparr>pos1 = n1, last1 = n1, pos2 = n2, first2 = 0, last2 = n2\<rparr>"
  have v: "cp_over n1 n2 = Inr ?v" using pos assms(3) by (rule cp_over_nonempty)
  have b: "cp_begin ?v = mk_iterator 0 n1 0 n2" by (simp add: cp_begin_def)
  have reach: "((pos1 it < last1 it \<and> pos2 it < last2 it
             \<and> (\<forall>k1 k2. cp_star k1 k2 n1 n2 it =
                    Inr (cref_of k1 (pos1 it), cref_of k2 (pos2 it))))
           \<or> (pos1 it = last1 it \<and> pos2 it = last2 it \<and> \<not> cp_ne it (cp_end ?v)))
         \<and> \<not> (pos1 it = last1 it \<and> pos2 it = first2 it)
         \<and> (\<forall>it'. cp_inc n1 n2 it = Inr it' \<and> pos1 it' = last1 it' \<longrightarrow> pos2 it' = last2 it')"
    if adv: "cp_advance n1 n2 (cp_begin ?v) k = Inr it" for k it
  proof -
    have inv: "last1 it = n1 \<and> last2 it = n2 \<and> first2 it = 0
        \<and> ((pos1 it < n1 \<and> pos2 it < n2) \<or> (pos1 it = n1 \<and> pos2 it = n2))"
      using pos(2) adv
      by (rule cp_advance_invariant) (simp_all add: cp_begin_def mk_iterator_def pos)
    have step: "pos2 it' = last2 it'" if "cp_inc n1 n2 it = Inr it'" "pos1 it' = last1 it'" for it'
    proof -
      have "last1 it' = n1 \<and> last2 it' = n2 \<and> first2 it' = 0
          \<and> ((pos1 it' < n1 \<and> pos2 it' < n2) \<or> (pos1 it' = n1 \<and> pos2 it' = n2))"
        using inv pos(2) that(1) by (intro cp_inc_invariant[of it]) simp_all
      then show ?thesis using that(2) by auto
    qed
    have "(pos1 it < last1 it \<and> pos2 it < last2 it
             \<and> (\<forall>k1 k2. cp_star k1 k2 n1 n2 it =
                    Inr (cref_of k1 (pos1 it), cref_of k2 (pos2 it))))
           \<or> (pos1 it = last1 it \<and> pos2 it = last2 it \<and> \<not> cp_ne it (cp_end ?v))"
      using inv by (auto simp: cp_star_def bind_cref_def cp_ne_def cp_end_def mk_iterator_def)
    moreover have "\<not> (pos1 it = last1 it \<and> pos2 it = first2 it)"
      using inv pos by auto
    ultimately show ?thesis using step by blast
  qed
  have upto: "\<exists>it. cp_advance n1 n2 (cp_begin ?v) k = Inr it" if "k \<le> n1 * n2" for k
    unfolding b using cp_advance_index[OF pos that] by simp
  have at_end: "cp_advance n1 n2 (cp_begin ?v) (n1 * n2) = Inr ?e"
    unfolding b using cp_advance_index[OF pos order_refl] by simp
  have "\<not> cp_ne ?e (cp_end ?v)" by (simp add: cp_ne_def cp_end_def mk_iterator_def)
  then have reaches: "\<exists>it. cp_advance n1 n2 (cp_begin ?v) (n1 * n2) = Inr it \<and> \<not> cp_ne it (cp_end ?v)"
    using at_end by blast
  have past: "cp_advance n1 n2 (cp_begin ?v) (Suc (n1 * n2)) = Inl InvalidIterator"
    unfolding cp_advance_Suc at_end by (simp add: cp_inc_def next_it_def)
  show ?thesis
    using v reach upto reaches past by blast
qed

theorem cartesian_product_reachable_witness:
  "\<exists>v it. cp_over 3 2 = Inr v \<and> cp_advance 3 2 (cp_begin v) 6 = Inr it
     \<and> pos1 it = last1 it \<and> pos2 it = last2 it \<and> \<not> cp_ne it (cp_end v)
     \<and> pos2 it \<noteq> first2 it
     \<and> cp_advance 3 2 (cp_begin v) 7 = Inl InvalidIterator"
proof -
  have h: "(1::nat) \<le> 3" "(1::nat) \<le> 2" "(3::nat) * 2 < 2 ^ 63" by simp_all
  obtain v where v: "cp_over 3 2 = Inr v"
    and reach: "\<And>k it. cp_advance 3 2 (cp_begin v) k = Inr it \<Longrightarrow>
         ((pos1 it < last1 it \<and> pos2 it < last2 it
             \<and> (\<forall>k1 k2. cp_star k1 k2 3 2 it =
                    Inr (cref_of k1 (pos1 it), cref_of k2 (pos2 it))))
           \<or> (pos1 it = last1 it \<and> pos2 it = last2 it \<and> \<not> cp_ne it (cp_end v)))
         \<and> \<not> (pos1 it = last1 it \<and> pos2 it = first2 it)"
    and e: "\<exists>it. cp_advance 3 2 (cp_begin v) (3 * 2) = Inr it \<and> \<not> cp_ne it (cp_end v)"
    and past: "cp_advance 3 2 (cp_begin v) (Suc (3 * 2)) = Inl InvalidIterator"
    using cartesian_product_reachable[OF h] by blast
  obtain it where it: "cp_advance 3 2 (cp_begin v) 6 = Inr it" "\<not> cp_ne it (cp_end v)"
    using e by auto
  have ve: "v = \<lparr>m_begin = mk_iterator 0 3 0 2, m_end = mk_iterator 3 3 2 2\<rparr>"
    using v by (intro cp_over_Inr) simp_all
  have "pos1 it = 3" "pos2 it = 2"
    using it(2) by (simp_all add: cp_ne_def ve cp_end_def mk_iterator_def)
  moreover have "last1 it = 3 \<and> last2 it = 2 \<and> first2 it = 0
      \<and> ((pos1 it < 3 \<and> pos2 it < 2) \<or> (pos1 it = 3 \<and> pos2 it = 2))"
    using _ it(1) by (rule cp_advance_invariant) (simp_all add: ve cp_begin_def mk_iterator_def)
  ultimately have "pos1 it = last1 it \<and> pos2 it = last2 it \<and> pos2 it \<noteq> first2 it"
    using reach[OF it(1)] by simp
  moreover have "cp_advance 3 2 (cp_begin v) 7 = Inl InvalidIterator"
    using past by simp
  ultimately show ?thesis using v it by blast
qed

text \<open>
  Without the bound the constructor returns no view whose \<open>begin()\<close> could be advanced:
  for sequences of \<open>2^33\<close> and \<open>2^31\<close> elements the product of the two distances is \<open>2^64\<close>.
  Where the overflowing multiplication wraps, \<open>size()\<close> is 0, the guard copies \<open>_end\<close> to
  \<open>_begin\<close>, and \<open>begin()\<close> is a position with \<open>pos1 = last1\<close> and \<open>pos2 = first2 = last2\<close>.
\<close>

theorem cartesian_product_reachable_overflow:
  "(1::nat) \<le> 8589934592 \<and> (1::nat) \<le> 2147483648
   \<and> cp_over 8589934592 2147483648 = Inl SignedOverflow"
  by (simp add: cp_over_overflow)

text \<open>
  Claim C10. \<open>size()\<close> of \<open>internal_pairs\<close> is computed in \<open>size_t\<close>, modulo \<open>2^64\<close>: for
  \<open>n = 0\<close> the subexpression \<open>n - 1\<close> wraps to \<open>2^64 - 1\<close> and the result is still 0; for
  \<open>n \<ge> 1\<close> with \<open>n * (n - 1) < 2^64\<close> the result is the exact \<open>n * (n - 1) / 2\<close>.
\<close>

theorem internal_pairs_size_unsigned:
  "unat (vec_size ([] :: 'a list) - 1) = 2 ^ 64 - 1
   \<and> ip_size ([] :: 'a list) = 0
   \<and> (1 \<le> length (xs :: 'a list) \<and> length xs * (length xs - 1) < 2 ^ 64 \<longrightarrow>
        unat (ip_size xs) = length xs * (length xs - 1) div 2)"
proof -
  have "unat (vec_size ([] :: 'a list) - 1) = 2 ^ 64 - 1"
    by (simp add: vec_size_def unsigned_minus_1_eq_mask mask_eq_exp_minus_1)
  moreover have "ip_size ([] :: 'a list) = 0"
    by (simp add: ip_size_def vec_size_def)
  ultimately show ?thesis
    using unat_ip_size[of xs] by blast
qed

theorem internal_pairs_size_unsigned_witness:
  "1 \<le> length [0, 1, 2, 3 :: int] \<and> unat (ip_size [0, 1, 2, 3 :: int]) = 6
   \<and> unat (vec_size ([] :: int list) - 1) = 18446744073709551615"
proof -
  have "unat (ip_size [0, 1, 2, 3 :: int]) = 6"
    using internal_pairs_size_unsigned[of "[0, 1, 2, 3 :: int]"] by simp
  moreover have "unat (vec_size ([] :: int list) - 1) = 18446744073709551615"
    using internal_pairs_size_unsigned[of "[0, 1, 2, 3 :: int]"] by simp
  ultimately show ?thesis by simp
qed

end
